theory Spec2Isabelle
  imports Complex_Main
begin

chapter \<open>The model\<close>

section \<open>Strings as the Python code uses them\<close>

text \<open>
  A Python \<open>str\<close> is modelled as a \<open>string\<close>: a list of 8-bit characters, each read as the
  code point of that number (so the model covers the code points below 256).
  \<open>s.replace(' ', '')\<close> deletes every space, \<open>s.lower()\<close> maps the upper-case letters
  of that range to lower case, \<open>s.strip()\<close> removes white space at both ends,
  \<open>s[:n]\<close> is \<open>take n s\<close> and \<open>s.startswith(p)\<close> compares the first \<open>len(p)\<close> characters.
\<close>

definition replace_spaces :: "string \<Rightarrow> string" where
  "replace_spaces s = filter (\<lambda>c. c \<noteq> CHR '' '') s"

definition lower_char :: "char \<Rightarrow> char" where
  "lower_char c =
     (let n = (of_char c :: nat)
      in if 65 \<le> n \<and> n \<le> 90 then char_of (n + 32)
         else if 192 \<le> n \<and> n \<le> 222 \<and> n \<noteq> 215 then char_of (n + 32)
         else c)"

definition lower :: "string \<Rightarrow> string" where
  "lower s = map lower_char s"

definition is_space :: "char \<Rightarrow> bool" where
  "is_space c =
     (let n = (of_char c :: nat)
      in (9 \<le> n \<and> n \<le> 13) \<or> (28 \<le> n \<and> n \<le> 32) \<or> n = 133 \<or> n = 160)"

definition strip :: "string \<Rightarrow> string" where
  "strip s = rev (dropWhile is_space (rev (dropWhile is_space s)))"

definition startswith :: "string \<Rightarrow> string \<Rightarrow> bool" where
  "startswith s p = (take (length p) s = p)"

text \<open>\<open>s.replace(' ', '.')\<close>, used to turn a class list into a CSS selector.\<close>

definition spaces_to_dots :: "string \<Rightarrow> string" where
  "spaces_to_dots s = map (\<lambda>c. if c = CHR '' '' then CHR ''.'' else c) s"

text \<open>\<open>x or ''\<close> for a value that is a string or \<open>None\<close> (an attribute read).\<close>

definition or_empty :: "string option \<Rightarrow> string" where
  "or_empty v = (case v of None \<Rightarrow> [] | Some s \<Rightarrow> s)"

section \<open>Element descriptors\<close>

text \<open>
  The dictionary \<open>element_info\<close> built by \<open>_extract_element_info\<close> and
  \<open>_extract_element_info_for_hidden\<close>. The fields kept are the ones some control flow
  reads; the remaining entries (role, type, data_testid, aria_label, title, name, value,
  src, alt, css_selector, location, size, status_code) are only stored and printed.
  The key \<open>text\<close> is the field \<open>text'\<close> (\<open>text\<close> is a keyword here).
  \<open>unique_id\<close> is an MD5 hex digest for a descriptor of the ordinary path and a Python
  \<open>hash\<close> value for a carousel descriptor. \<open>detection_method\<close> is absent (\<open>None\<close>) unless
  the cursor or listener sweep sets it; \<open>is_carousel_element\<close> is read with
  \<open>.get(..., False)\<close>, so an absent key is \<open>False\<close>.
\<close>

datatype uid = Md5 string | PyHash int

record element_info =
  tag_name :: string
  text' :: string
  class_names :: string
  ident :: string
  href :: string
  onclick :: string
  xpath :: string
  is_displayed :: bool
  is_enabled :: bool
  unique_id :: uid
  is_carousel_element :: bool
  detection_method :: "string option"

section \<open>Inert link targets\<close>

text \<open>
  \<^verbatim>\<open>href = (element_info.get('href') or '').replace(' ', '').lower()
  return href in ['javascript:void(0)', 'javascript::void(0)', '#', ' ']\<close>
  A descriptor always carries a string under \<open>href\<close>, on which \<open>or ''\<close> is the identity.
\<close>

definition is_dead_click_by_href :: "'a element_info_scheme \<Rightarrow> bool" where
  "is_dead_click_by_href info =
     (lower (replace_spaces (href info)) \<in>
        set [''javascript:void(0)'', ''javascript::void(0)'', ''#'', '' ''])"

section \<open>Batch partitioning\<close>

datatype py_error = ZeroDivisionError

text \<open>\<open>elements[start_idx:end_idx]\<close> for \<open>0 \<le> start_idx \<le> end_idx\<close>; the slice is clipped
  at the end of the list.\<close>

definition slice :: "'a list \<Rightarrow> nat \<Rightarrow> nat \<Rightarrow> 'a list" where
  "slice xs start_idx end_idx = take (end_idx - start_idx) (drop start_idx xs)"

text \<open>The body of \<open>for i in range(num_batches)\<close>, over the values of \<open>i\<close> still to come,
  with \<open>start_idx\<close> as the loop's state; an empty batch is not appended.\<close>

fun divide_loop :: "'a list \<Rightarrow> nat \<Rightarrow> nat \<Rightarrow> nat list \<Rightarrow> nat \<Rightarrow> 'a list list" where
  "divide_loop elements batch_size remainder [] start_idx = []"
| "divide_loop elements batch_size remainder (i # rest) start_idx =
     (let current_batch_size = batch_size + (if i < remainder then 1 else 0);
          end_idx = start_idx + current_batch_size;
          batch = slice elements start_idx end_idx
      in (if batch \<noteq> [] then [batch] else [])
         @ divide_loop elements batch_size remainder rest end_idx)"

text \<open>
  \<open>_divide_elements_into_batches\<close>. \<open>num_batches\<close> is a Python int: zero makes
  \<open>//\<close> raise, and for a negative value \<open>range(num_batches)\<close> is empty.
\<close>

definition divide_elements_into_batches :: "'a list \<Rightarrow> int \<Rightarrow> py_error + 'a list list" where
  "divide_elements_into_batches elements num_batches =
     (if num_batches = 0 then Inl ZeroDivisionError
      else if num_batches < 0 then Inr []
      else Inr (divide_loop elements
                  (length elements div nat num_batches)
                  (length elements mod nat num_batches)
                  [0 ..< nat num_batches] 0))"

section \<open>Exceptions and click results\<close>

text \<open>
  The exception classes the classifier tells apart; every other exception is
  \<open>OtherException\<close>. Each carries its message, which \<open>str(e)\<close> returns. A call into the
  browser either raises (\<open>Inl\<close>) or answers (\<open>Inr\<close>).
\<close>

datatype exn =
    TimeoutException string
  | StaleElementReferenceException string
  | ElementClickInterceptedException string
  | OtherException string

fun str_exn :: "exn \<Rightarrow> string" where
  "str_exn (TimeoutException m) = m"
| "str_exn (StaleElementReferenceException m) = m"
| "str_exn (ElementClickInterceptedException m) = m"
| "str_exn (OtherException m) = m"

text \<open>The dictionary \<open>result\<close>; its \<open>timestamp\<close> (the wall clock) is left out.\<close>

record click_result =
  element_info :: element_info
  click_status :: string
  error_message :: string
  page_changed :: bool
  url_before :: string
  url_after :: string
  new_elements_appeared :: bool

definition new_result :: "element_info \<Rightarrow> click_result" where
  "new_result info =
     \<lparr>element_info = info, click_status = ''unknown'', error_message = [],
      page_changed = False, url_before = [], url_after = [],
      new_elements_appeared = False\<rparr>"

section \<open>The locator\<close>

datatype by_strategy = By_ID | By_XPATH | By_CSS_SELECTOR

text \<open>A live element handle as a lookup returns it: what its reads answer, and the
  handle's number, which tells two handles with the same answers apart.\<close>

record web_element =
  handle :: nat
  we_is_displayed :: "exn + bool"
  we_tag_name :: "exn + string"
  we_text :: "exn + string"

type_synonym lookup = "by_strategy \<Rightarrow> string \<Rightarrow> exn + web_element list"

text \<open>
  What the browser session answers during the classification of one element, in the
  order the classifier asks: \<open>driver.find_elements\<close>, the carousel containers (each
  with its own \<open>container.find_elements\<close>), \<open>driver.current_url\<close> and \<open>driver.title\<close>
  before the click, the scroll script, \<open>element.is_displayed()\<close>, \<open>element.is_enabled()\<close>,
  \<open>element.click()\<close>, the script click, \<open>current_url\<close> and \<open>title\<close> after the click, and
  the two overlay lookups.
\<close>

record session =
  find_elements :: lookup
  carousel_containers :: "exn + lookup list"
  first_current_url :: "exn + string"
  first_title :: "exn + string"
  scroll_into_view :: "exn + unit"
  el_is_displayed :: "exn + bool"
  el_is_enabled :: "exn + bool"
  el_click :: "exn + unit"
  script_click :: "exn + unit"
  second_current_url :: "exn + string"
  second_title :: "exn + string"
  find_modals :: "exn + web_element list"
  find_dropdowns :: "exn + web_element list"

text \<open>
  The test of \<open>_find_element_by_info\<close> on one candidate:
  \<^verbatim>\<open>element.is_displayed() and element.tag_name == element_info['tag_name']
    and element.text.strip()[:100] == element_info['text']\<close>
  \<open>and\<close> stops at the first false operand, so a later read is made (and can raise) only
  when the earlier ones held.
\<close>

definition candidate_matches :: "element_info \<Rightarrow> web_element \<Rightarrow> exn + bool" where
  "candidate_matches info el =
     (case we_is_displayed el of
        Inl e \<Rightarrow> Inl e
      | Inr displayed \<Rightarrow>
          if \<not> displayed then Inr False
          else (case we_tag_name el of
                  Inl e \<Rightarrow> Inl e
                | Inr t \<Rightarrow>
                    if t \<noteq> tag_name info then Inr False
                    else (case we_text el of
                            Inl e \<Rightarrow> Inl e
                          | Inr x \<Rightarrow> Inr (take 100 (strip x) = text' info))))"

text \<open>The test of \<open>_find_element_by_info_in_container\<close>: tag name and text only.\<close>

definition candidate_matches_in_container :: "element_info \<Rightarrow> web_element \<Rightarrow> exn + bool" where
  "candidate_matches_in_container info el =
     (case we_tag_name el of
        Inl e \<Rightarrow> Inl e
      | Inr t \<Rightarrow>
          if t \<noteq> tag_name info then Inr False
          else (case we_text el of
                  Inl e \<Rightarrow> Inl e
                | Inr x \<Rightarrow> Inr (take 100 (strip x) = text' info)))"

text \<open>\<open>for element in elements: if <test>: return element\<close>; a read that raises leaves
  the loop.\<close>

fun first_accepted :: "(web_element \<Rightarrow> exn + bool) \<Rightarrow> web_element list \<Rightarrow> exn + web_element option" where
  "first_accepted ok [] = Inr None"
| "first_accepted ok (el # els) =
     (case ok el of
        Inl e \<Rightarrow> Inl e
      | Inr True \<Rightarrow> Inr (Some el)
      | Inr False \<Rightarrow> first_accepted ok els)"

text \<open>The list \<open>strategies\<close>; an entry is \<open>None\<close> when its field gives nothing to look up.\<close>

definition strategies :: "element_info \<Rightarrow> (by_strategy \<times> string) option list" where
  "strategies info =
     [if ident info \<noteq> [] then Some (By_ID, ident info) else None,
      if xpath info \<noteq> ''xpath_unavailable'' then Some (By_XPATH, xpath info) else None,
      if class_names info \<noteq> [] then Some (By_CSS_SELECTOR, ''.'' @ spaces_to_dots (class_names info))
      else None]"

text \<open>\<open>for strategy in strategies: if strategy: try: ... except Exception: continue\<close>.\<close>

fun try_strategies ::
  "lookup \<Rightarrow> (web_element \<Rightarrow> exn + bool) \<Rightarrow> (by_strategy \<times> string) option list \<Rightarrow> web_element option" where
  "try_strategies lk ok [] = None"
| "try_strategies lk ok (None # rest) = try_strategies lk ok rest"
| "try_strategies lk ok (Some (b, v) # rest) =
     (case lk b v of
        Inl e \<Rightarrow> try_strategies lk ok rest
      | Inr elements \<Rightarrow>
          (case first_accepted ok elements of
             Inl e \<Rightarrow> try_strategies lk ok rest
           | Inr (Some el) \<Rightarrow> Some el
           | Inr None \<Rightarrow> try_strategies lk ok rest))"

definition find_element_by_info :: "lookup \<Rightarrow> element_info \<Rightarrow> web_element option" where
  "find_element_by_info lk info = try_strategies lk (candidate_matches info) (strategies info)"

text \<open>\<open>_find_element_by_info_with_driver\<close> is the same text, asked of the batch's driver.\<close>

definition find_element_by_info_with_driver :: "lookup \<Rightarrow> element_info \<Rightarrow> web_element option" where
  "find_element_by_info_with_driver lk info =
     try_strategies lk (candidate_matches info) (strategies info)"

definition find_element_by_info_in_container :: "element_info \<Rightarrow> lookup \<Rightarrow> web_element option" where
  "find_element_by_info_in_container info container =
     try_strategies container (candidate_matches_in_container info) (strategies info)"

text \<open>\<open>_find_and_prepare_carousel_element\<close>: the first container in which the element is
  found; \<open>_pause_carousel\<close> swallows its own exceptions, and a lookup of the containers
  that raises gives \<open>None\<close>.\<close>

fun first_in_containers :: "element_info \<Rightarrow> lookup list \<Rightarrow> web_element option" where
  "first_in_containers info [] = None"
| "first_in_containers info (container # rest) =
     (case find_element_by_info_in_container info container of
        Some el \<Rightarrow> Some el
      | None \<Rightarrow> first_in_containers info rest)"

definition find_and_prepare_carousel_element :: "session \<Rightarrow> element_info \<Rightarrow> web_element option" where
  "find_and_prepare_carousel_element sess info =
     (case carousel_containers sess of
        Inl e \<Rightarrow> None
      | Inr containers \<Rightarrow> first_in_containers info containers)"

section \<open>The click classifier\<close>

text \<open>
  The last block of the \<open>try\<close> body, "Determine click status": the \<open>if\<close>/\<open>elif\<close> chain
  on the descriptor's href, the URL and the title, and in its \<open>else\<close> branch the two
  overlay lookups inside their own \<open>try\<close>, whose \<open>except Exception\<close> gives \<open>dead_click\<close>.
\<close>

definition classify_observed ::
  "session \<Rightarrow> element_info \<Rightarrow> string \<Rightarrow> string \<Rightarrow> string \<Rightarrow> string \<Rightarrow> click_result \<Rightarrow> click_result" where
  "classify_observed sess info initial_url initial_title current_url current_title result =
     (if is_dead_click_by_href info then
        result\<lparr>click_status := ''dead_click'',
               error_message := ''Dead click: href is javascript:void(0)''\<rparr>
      else if current_url \<noteq> initial_url then
        result\<lparr>click_status := ''active_navigation'', page_changed := True\<rparr>
      else if current_title \<noteq> initial_title then
        result\<lparr>click_status := ''active_title_change'', page_changed := True\<rparr>
      else
        (case find_modals sess of
           Inl e \<Rightarrow> result\<lparr>click_status := ''dead_click''\<rparr>
         | Inr modals \<Rightarrow>
             (case find_dropdowns sess of
                Inl e \<Rightarrow> result\<lparr>click_status := ''dead_click''\<rparr>
              | Inr dropdowns \<Rightarrow>
                  if modals \<noteq> [] \<or> dropdowns \<noteq> [] then
                    result\<lparr>click_status := ''active_ui_change'', new_elements_appeared := True\<rparr>
                  else result\<lparr>click_status := ''dead_click''\<rparr>)))"

text \<open>
  The \<open>try\<close> body returns the pair of the exception that left it (\<open>None\<close> when it ran to a
  \<open>return\<close> or to its end) and \<open>result\<close> as it stood then. After the click: the pause,
  the second reads of URL and title, and the classification.
\<close>

definition after_click ::
  "session \<Rightarrow> element_info \<Rightarrow> string \<Rightarrow> string \<Rightarrow> click_result \<Rightarrow> exn option \<times> click_result" where
  "after_click sess info initial_url initial_title result =
     (case second_current_url sess of
        Inl e \<Rightarrow> (Some e, result)
      | Inr current_url \<Rightarrow>
          (case second_title sess of
             Inl e \<Rightarrow> (Some e, result)
           | Inr current_title \<Rightarrow>
               (None, classify_observed sess info initial_url initial_title current_url current_title
                        (result\<lparr>url_after := current_url\<rparr>))))"

text \<open>
  The click with its fallback: only \<open>ElementClickInterceptedException\<close> leads to the
  script click, whose every exception ends the attempt as \<open>click_intercepted\<close>; any other
  exception of \<open>element.click()\<close> leaves the \<open>try\<close> body.
\<close>

definition click_and_observe ::
  "session \<Rightarrow> element_info \<Rightarrow> string \<Rightarrow> string \<Rightarrow> click_result \<Rightarrow> exn option \<times> click_result" where
  "click_and_observe sess info initial_url initial_title result =
     (case el_click sess of
        Inr u \<Rightarrow> after_click sess info initial_url initial_title result
      | Inl (ElementClickInterceptedException m) \<Rightarrow>
          (case script_click sess of
             Inr u \<Rightarrow> after_click sess info initial_url initial_title result
           | Inl js_error \<Rightarrow>
               (None, result\<lparr>click_status := ''click_intercepted'',
                             error_message := ''Click intercepted: '' @ str_exn js_error\<rparr>))
      | Inl e \<Rightarrow> (Some e, result))"

text \<open>
  The whole \<open>try\<close> body, given what the locator returned. \<open>_make_carousel_element_clickable\<close>
  swallows its own exceptions and returns nothing, so it does not show here.
  \<open>element.is_enabled()\<close> is read only when \<open>element.is_displayed()\<close> answered true.
\<close>

definition try_body ::
  "session \<Rightarrow> element_info \<Rightarrow> web_element option \<Rightarrow> click_result \<Rightarrow> exn option \<times> click_result" where
  "try_body sess info located result =
     (case first_current_url sess of
        Inl e \<Rightarrow> (Some e, result)
      | Inr initial_url \<Rightarrow>
     (case first_title sess of
        Inl e \<Rightarrow> (Some e, result)
      | Inr initial_title \<Rightarrow>
     (let result = result\<lparr>url_before := initial_url\<rparr> in
      case located of
        None \<Rightarrow>
          (None, result\<lparr>click_status := ''element_not_found'',
                        error_message := ''Element could not be located for clicking''\<rparr>)
      | Some element \<Rightarrow>
     (case scroll_into_view sess of
        Inl e \<Rightarrow> (Some e, result)
      | Inr u \<Rightarrow>
     (case el_is_displayed sess of
        Inl e \<Rightarrow> (Some e, result)
      | Inr displayed \<Rightarrow>
     (case (if displayed then el_is_enabled sess else Inr False) of
        Inl e \<Rightarrow> (Some e, result)
      | Inr clickable \<Rightarrow>
          if \<not> clickable then
            (None, result\<lparr>click_status := ''not_clickable'',
                          error_message := ''Element is not displayed or enabled''\<rparr>)
          else click_and_observe sess info initial_url initial_title result))))))"

text \<open>
  \<open>test_element_click\<close> (the same text in both files): a carousel descriptor is located
  through the carousel containers, any other through \<open>_find_element_by_info\<close>; the three
  handlers follow the \<open>try\<close> body.
\<close>

definition test_element_click :: "session \<Rightarrow> element_info \<Rightarrow> click_result" where
  "test_element_click sess info =
     (let element = (if is_carousel_element info then find_and_prepare_carousel_element sess info
                     else find_element_by_info (find_elements sess) info)
      in case try_body sess info element (new_result info) of
           (None, result) \<Rightarrow> result
         | (Some (TimeoutException m), result) \<Rightarrow>
             result\<lparr>click_status := ''timeout'',
                    error_message := ''Timeout waiting for element or page response''\<rparr>
         | (Some (StaleElementReferenceException m), result) \<Rightarrow>
             result\<lparr>click_status := ''stale_element'',
                    error_message := ''Element became stale during test''\<rparr>
         | (Some e, result) \<Rightarrow>
             result\<lparr>click_status := ''error'', error_message := str_exn e\<rparr>)"

text \<open>
  \<open>_test_element_click_with_driver\<close>: the same \<open>try\<close> body on the batch's driver, the
  element always located by \<open>_find_element_by_info_with_driver\<close>, and one handler,
  \<open>except Exception\<close>.
\<close>

definition test_element_click_with_driver :: "session \<Rightarrow> element_info \<Rightarrow> click_result" where
  "test_element_click_with_driver sess info =
     (case try_body sess info (find_element_by_info_with_driver (find_elements sess) info)
             (new_result info) of
        (None, result) \<Rightarrow> result
      | (Some e, result) \<Rightarrow> result\<lparr>click_status := ''error'', error_message := str_exn e\<rparr>)"

section \<open>Batches and runs\<close>

text \<open>
  What a batch's driver answers around one element: \<open>driver.current_url\<close> before the
  test, \<open>driver.get(url)\<close> when that differs from the target, and the session's answers
  during the classification.
\<close>

record batch_step =
  batch_current_url :: "exn + string"
  batch_get :: "exn + unit"
  batch_session :: session

definition batch_error_result :: "element_info \<Rightarrow> string \<Rightarrow> exn \<Rightarrow> click_result" where
  "batch_error_result info url e =
     \<lparr>element_info = info, click_status = ''batch_error'', error_message = str_exn e,
      page_changed = False, url_before = url, url_after = url,
      new_elements_appeared = False\<rparr>"

definition test_one_in_batch :: "string \<Rightarrow> element_info \<times> batch_step \<Rightarrow> click_result" where
  "test_one_in_batch url item =
     (case item of (info, step) \<Rightarrow>
        (case batch_current_url step of
           Inl e \<Rightarrow> batch_error_result info url e
         | Inr current \<Rightarrow>
             (case (if current \<noteq> url then batch_get step else Inr ()) of
                Inl e \<Rightarrow> batch_error_result info url e
              | Inr u \<Rightarrow> test_element_click_with_driver (batch_session step) info)))"

text \<open>\<open>_test_element_batch\<close>: one result per element of the batch, in order.\<close>

fun test_element_batch :: "(element_info \<times> batch_step) list \<Rightarrow> string \<Rightarrow> click_result list" where
  "test_element_batch [] url = []"
| "test_element_batch (item # rest) url = test_one_in_batch url item # test_element_batch rest url"

text \<open>The dictionary \<open>test_results\<close>, without \<open>summary\<close> (floating-point percentages),
  \<open>concurrent_info\<close> and \<open>timestamp\<close>.\<close>

record test_results =
  url :: string
  total_elements_found :: nat
  elements_tested :: nat
  active_clicks :: nat
  dead_clicks :: nat
  errors :: nat
  results :: "click_result list"

definition new_test_results :: "string \<Rightarrow> nat \<Rightarrow> test_results" where
  "new_test_results u found =
     \<lparr>url = u, total_elements_found = found, elements_tested = 0, active_clicks = 0,
      dead_clicks = 0, errors = 0, results = []\<rparr>"

text \<open>"Update counters": the \<open>if\<close>/\<open>elif\<close>/\<open>else\<close> on \<open>result['click_status']\<close>.\<close>

definition update_counters :: "click_result \<Rightarrow> test_results \<Rightarrow> test_results" where
  "update_counters result tr =
     (if startswith (click_status result) ''active'' then tr\<lparr>active_clicks := active_clicks tr + 1\<rparr>
      else if click_status result = ''dead_click'' then tr\<lparr>dead_clicks := dead_clicks tr + 1\<rparr>
      else tr\<lparr>errors := errors tr + 1\<rparr>)"

text \<open>
  What the driver answers around one element of the sequential run:
  \<open>self.driver.get(url)\<close>, \<open>self.driver.current_url\<close>, the second \<open>get\<close> when that differs
  from the target, and the session during the classification. An exception here is
  outside \<open>test_element_click\<close> and ends the run in its \<open>except Exception\<close>, which returns
  only \<open>{'error': str(e)}\<close>.
\<close>

record seq_step =
  seq_get :: "exn + unit"
  seq_current_url :: "exn + string"
  seq_get_again :: "exn + unit"
  seq_session :: session

fun test_each :: "string \<Rightarrow> (element_info \<times> seq_step) list \<Rightarrow> test_results \<Rightarrow> exn + test_results" where
  "test_each u [] tr = Inr tr"
| "test_each u ((info, step) # rest) tr =
     (case seq_get step of
        Inl e \<Rightarrow> Inl e
      | Inr u1 \<Rightarrow>
     (case seq_current_url step of
        Inl e \<Rightarrow> Inl e
      | Inr current \<Rightarrow>
     (case (if current \<noteq> u then seq_get_again step else Inr ()) of
        Inl e \<Rightarrow> Inl e
      | Inr u2 \<Rightarrow>
          (let result = test_element_click (seq_session step) info;
               tr = tr\<lparr>results := results tr @ [result]\<rparr>;
               tr = tr\<lparr>elements_tested := elements_tested tr + 1\<rparr>
           in test_each u rest (update_counters result tr)))))"

text \<open>
  \<open>run_comprehensive_test\<close> from the point where \<open>find_clickable_elements\<close> has returned
  \<open>clickable_elements\<close>, each paired here with the answers the driver gives while it is
  tested. The result is \<open>Inl\<close> for the dictionary \<open>{'error': str(e)}\<close>.
\<close>

definition run_comprehensive_test ::
  "string \<Rightarrow> (element_info \<times> seq_step) list \<Rightarrow> string + test_results" where
  "run_comprehensive_test u clickable_elements =
     (case test_each u clickable_elements (new_test_results u (length clickable_elements)) of
        Inl e \<Rightarrow> Inl (str_exn e)
      | Inr tr \<Rightarrow> Inr tr)"

text \<open>\<open>for future in as_completed(...)\<close>: a batch that returned extends \<open>results\<close> and adds
  its length to \<open>elements_tested\<close>; one whose \<open>future.result()\<close> raises is only reported.\<close>

fun collect_batches :: "(exn + click_result list) list \<Rightarrow> test_results \<Rightarrow> test_results" where
  "collect_batches [] tr = tr"
| "collect_batches (Inr batch_results # rest) tr =
     collect_batches rest
       (tr\<lparr>results := results tr @ batch_results,
           elements_tested := elements_tested tr + length batch_results\<rparr>)"
| "collect_batches (Inl e # rest) tr = collect_batches rest tr"

text \<open>"Count results": \<open>for result in test_results['results']\<close>.\<close>

fun count_results :: "click_result list \<Rightarrow> test_results \<Rightarrow> test_results" where
  "count_results [] tr = tr"
| "count_results (result # rest) tr = count_results rest (update_counters result tr)"

text \<open>
  \<open>run_comprehensive_test_concurrent\<close> from the point where discovery has returned.
  \<open>pool_size\<close> is the number of drivers \<open>_setup_driver_pool\<close> could start; \<open>completed\<close> is
  the order in which the futures complete, as batch indices (an index that names no
  batch is skipped: no such future exists).
\<close>

definition run_comprehensive_test_concurrent ::
  "string \<Rightarrow> (element_info \<times> batch_step) list \<Rightarrow> nat \<Rightarrow> nat list \<Rightarrow> string + test_results" where
  "run_comprehensive_test_concurrent u clickable_elements pool_size completed =
     (if pool_size = 0 then Inl ''Failed to initialize driver pool''
      else
        (case divide_elements_into_batches clickable_elements (int pool_size) of
           Inl e \<Rightarrow> Inl ''integer division or modulo by zero''
         | Inr batches \<Rightarrow>
             (let outcomes = map (\<lambda>i. Inr (test_element_batch (batches ! i) u))
                               (filter (\<lambda>i. i < length batches) completed);
                  tr = collect_batches outcomes (new_test_results u (length clickable_elements))
              in Inr (count_results (results tr) tr))))"

section \<open>Discovery\<close>

text \<open>
  \<open>hashlib.md5(...).hexdigest()\<close> and Python's built-in \<open>hash\<close> are library functions;
  the model takes them as parameters, so that every result holds for whatever functions
  they are.
\<close>

record hashes =
  md5_hexdigest :: "string \<Rightarrow> string"
  py_hash :: "string \<Rightarrow> int"

text \<open>
  Inside \<open>_extract_element_info\<close> every read of the element is in one \<open>try\<close> whose
  \<open>except Exception\<close> returns \<open>None\<close>. Which read raises does not matter, only on which
  side of \<open>self.seen_elements.add(unique_id)\<close> it stands: the reads of tag name, text,
  class, href, onclick and id come before it, the reads for the rest of the dictionary
  after it.
\<close>

datatype fault = NoFault | FaultBeforeDedup | FaultAfterDedup

text \<open>
  A DOM element as the discovery sweeps see it: the answers of its reads
  (\<open>get_attribute\<close> answers a string or \<open>None\<close>), of \<open>_is_in_header_or_footer\<close> and
  \<open>_is_carousel_element\<close> for it, of \<open>_get_element_xpath\<close> (which answers
  \<open>xpath_unavailable\<close> instead of raising), \<open>str(element.location)\<close>, and whether a read
  raises inside \<open>_extract_element_info\<close> or inside \<open>_extract_element_info_for_hidden\<close>.
\<close>

record dom_element =
  dom_tag_name :: string
  dom_text :: string
  dom_class :: "string option"
  dom_href :: "string option"
  dom_onclick :: "string option"
  dom_id :: "string option"
  dom_is_displayed :: bool
  dom_is_enabled :: bool
  dom_in_header_or_footer :: bool
  dom_in_carousel :: bool
  dom_xpath :: string
  dom_location :: string
  dom_fault :: fault
  dom_hidden_fault :: bool

text \<open>\<^verbatim>\<open>dedup_key = f"{tag_name}|{text}|{href}|{class_names}|{element_id}"\<close> with
  \<open>text = element.text.strip()[:100] if element.text else ''\<close> and \<open>or ''\<close> on each
  attribute.\<close>

definition dedup_key :: "dom_element \<Rightarrow> string" where
  "dedup_key el =
     dom_tag_name el @ ''|'' @ take 100 (strip (dom_text el)) @ ''|'' @ or_empty (dom_href el)
       @ ''|'' @ or_empty (dom_class el) @ ''|'' @ or_empty (dom_id el)"

definition fingerprint :: "hashes \<Rightarrow> dom_element \<Rightarrow> string" where
  "fingerprint H el = md5_hexdigest H (dedup_key el)"

text \<open>
  \<open>_extract_element_info\<close>, with \<open>self.seen_elements\<close> passed in and returned. In the
  sequential file the attribute is created empty on first use (\<open>hasattr\<close>), in the
  concurrent file by \<open>__init__\<close>; neither file empties it again.
\<close>

definition extract_element_info ::
  "hashes \<Rightarrow> string set \<Rightarrow> dom_element \<Rightarrow> element_info option \<times> string set" where
  "extract_element_info H seen_elements el =
     (if dom_fault el = FaultBeforeDedup then (None, seen_elements)
      else
        (let uniq = fingerprint H el in
         if uniq \<in> seen_elements then (None, seen_elements)
         else if dom_fault el = FaultAfterDedup then (None, insert uniq seen_elements)
         else
           (Some \<lparr>tag_name = dom_tag_name el,
                  text' = take 100 (strip (dom_text el)),
                  class_names = or_empty (dom_class el),
                  ident = or_empty (dom_id el),
                  href = or_empty (dom_href el),
                  onclick = or_empty (dom_onclick el),
                  xpath = dom_xpath el,
                  is_displayed = dom_is_displayed el,
                  is_enabled = dom_is_enabled el,
                  unique_id = Md5 uniq,
                  is_carousel_element = False,
                  detection_method = None\<rparr>,
            insert uniq seen_elements)))"

text \<open>\<open>_create_unique_id\<close>: the hash of tag, id, classes, the first 50 characters of the
  text and the location, joined by \<open>|\<close>.\<close>

definition create_unique_id :: "hashes \<Rightarrow> string \<Rightarrow> string \<Rightarrow> string \<Rightarrow> string \<Rightarrow> string \<Rightarrow> int" where
  "create_unique_id H tag elem_id classes txt location =
     py_hash H (tag @ ''|'' @ elem_id @ ''|'' @ classes @ ''|'' @ take 50 txt @ ''|'' @ location)"

text \<open>
  \<open>_extract_element_info_for_hidden\<close> of the concurrent file: no look at
  \<open>seen_elements\<close>, \<open>is_displayed\<close> forced to true, the carousel mark set.
\<close>

definition extract_element_info_for_hidden :: "hashes \<Rightarrow> dom_element \<Rightarrow> element_info option" where
  "extract_element_info_for_hidden H el =
     (if dom_hidden_fault el then None
      else
        Some \<lparr>tag_name = dom_tag_name el,
              text' = take 100 (strip (dom_text el)),
              class_names = or_empty (dom_class el),
              ident = or_empty (dom_id el),
              href = or_empty (dom_href el),
              onclick = or_empty (dom_onclick el),
              xpath = dom_xpath el,
              is_displayed = True,
              is_enabled = dom_is_enabled el,
              unique_id = PyHash (create_unique_id H (dom_tag_name el) (or_empty (dom_id el))
                                    (or_empty (dom_class el)) (take 100 (strip (dom_text el)))
                                    (dom_location el)),
              is_carousel_element = True,
              detection_method = None\<rparr>)"

text \<open>
  \<open>_extract_element_info_for_hidden\<close> of the sequential file. Its dictionary display
  evaluates \<open>self.get_status_code(href) if href else None\<close>, and no name \<open>href\<close> is bound
  in that function or in the module: the evaluation raises \<open>NameError\<close> for every
  element, and the \<open>except Exception\<close> returns \<open>None\<close>.
\<close>

definition extract_element_info_for_hidden_seq :: "hashes \<Rightarrow> dom_element \<Rightarrow> element_info option" where
  "extract_element_info_for_hidden_seq H el = None"

text \<open>
  The guard every sweep applies before it extracts:
  \<^verbatim>\<open>element.is_displayed() and element.is_enabled()
    and not self._is_in_header_or_footer(...) and not self._is_carousel_element(element)\<close>
  A guard that raises skips the element, as a false guard does.
\<close>

definition admissible :: "dom_element \<Rightarrow> bool" where
  "admissible el =
     (dom_is_displayed el \<and> dom_is_enabled el \<and> \<not> dom_in_header_or_footer el \<and> \<not> dom_in_carousel el)"

text \<open>
  What the page gives each part of discovery, in the order the loops meet the elements:
  the matches of the structural selectors (selector after selector; an element that
  several selectors match occurs once for each), the elements with a pointer cursor,
  those with click handlers, and the clickable elements found in the slides of the
  carousels. A lookup that raises contributes nothing.
\<close>

record page =
  structural_hits :: "dom_element list"
  pointer_hits :: "dom_element list"
  listener_hits :: "dom_element list"
  carousel_hits :: "dom_element list"

text \<open>The state of the loops: \<open>self.seen_elements\<close>, the local \<open>unique_ids\<close> and the list
  built so far.\<close>

type_synonym sweep_state = "string set \<times> uid set \<times> element_info list"

text \<open>The structural loop of \<open>_find_regular_clickables\<close> (and of the sequential
  \<open>find_clickable_elements\<close>): extract, then admit when \<open>unique_id\<close> is not in \<open>unique_ids\<close>.\<close>

fun structural_sweep :: "hashes \<Rightarrow> dom_element list \<Rightarrow> sweep_state \<Rightarrow> sweep_state" where
  "structural_sweep H [] st = st"
| "structural_sweep H (el # els) (seen_elements, unique_ids, clickable_elements) =
     (if admissible el then
        (case extract_element_info H seen_elements el of
           (Some info, seen') \<Rightarrow>
             if unique_id info \<notin> unique_ids then
               structural_sweep H els
                 (seen', insert (unique_id info) unique_ids, clickable_elements @ [info])
             else structural_sweep H els (seen', unique_ids, clickable_elements)
         | (None, seen') \<Rightarrow> structural_sweep H els (seen', unique_ids, clickable_elements))
      else structural_sweep H els (seen_elements, unique_ids, clickable_elements))"

text \<open>\<open>_find_elements_by_pointer_cursor\<close> and \<open>_find_elements_by_event_listeners\<close> of the
  concurrent file: every extracted descriptor is tagged and appended.\<close>

fun tagged_sweep ::
  "hashes \<Rightarrow> string \<Rightarrow> dom_element list \<Rightarrow> string set \<Rightarrow> element_info list \<times> string set" where
  "tagged_sweep H method [] seen_elements = ([], seen_elements)"
| "tagged_sweep H method (el # els) seen_elements =
     (if admissible el then
        (case extract_element_info H seen_elements el of
           (Some info, seen') \<Rightarrow>
             (case tagged_sweep H method els seen' of
                (elements, seen'') \<Rightarrow> (info\<lparr>detection_method := Some method\<rparr> # elements, seen''))
         | (None, seen') \<Rightarrow> tagged_sweep H method els seen')
      else tagged_sweep H method els seen_elements)"

definition find_elements_by_pointer_cursor ::
  "hashes \<Rightarrow> page \<Rightarrow> string set \<Rightarrow> element_info list \<times> string set" where
  "find_elements_by_pointer_cursor H p seen_elements =
     tagged_sweep H ''pointer_cursor'' (pointer_hits p) seen_elements"

definition find_elements_by_event_listeners ::
  "hashes \<Rightarrow> page \<Rightarrow> string set \<Rightarrow> element_info list \<times> string set" where
  "find_elements_by_event_listeners H p seen_elements =
     tagged_sweep H ''event_listener'' (listener_hits p) seen_elements"

definition find_regular_clickables ::
  "hashes \<Rightarrow> page \<Rightarrow> string set \<Rightarrow> element_info list \<times> string set" where
  "find_regular_clickables H p seen_elements =
     (case structural_sweep H (structural_hits p) (seen_elements, {}, []) of
        (seen1, unique_ids, clickable_elements) \<Rightarrow>
          (case find_elements_by_pointer_cursor H p seen1 of
             (by_cursor, seen2) \<Rightarrow>
               (case find_elements_by_event_listeners H p seen2 of
                  (by_listener, seen3) \<Rightarrow>
                    (clickable_elements @ by_cursor @ by_listener, seen3))))"

text \<open>The carousel path down to \<open>_extract_clickables_from_slide\<close>:
  \<open>if element.is_enabled(): element_info = ...; if element_info: clickables.append(...)\<close>.\<close>

fun carousel_sweep :: "(dom_element \<Rightarrow> element_info option) \<Rightarrow> dom_element list \<Rightarrow> element_info list" where
  "carousel_sweep extract [] = []"
| "carousel_sweep extract (el # els) =
     (if dom_is_enabled el then
        (case extract el of
           Some info \<Rightarrow> info # carousel_sweep extract els
         | None \<Rightarrow> carousel_sweep extract els)
      else carousel_sweep extract els)"

definition find_carousel_elements :: "hashes \<Rightarrow> page \<Rightarrow> element_info list" where
  "find_carousel_elements H p = carousel_sweep (extract_element_info_for_hidden H) (carousel_hits p)"

text \<open>
  \<open>find_clickable_elements\<close> of the concurrent file: the carousels first, then the
  regular sweeps, and \<open>clickable_elements.extend(carousel_elements)\<close>. It returns the
  list; \<open>self.seen_elements\<close> is returned here with it, as the state the next call finds.
\<close>

definition find_clickable_elements ::
  "hashes \<Rightarrow> page \<Rightarrow> string set \<Rightarrow> element_info list \<times> string set" where
  "find_clickable_elements H p seen_elements =
     (let carousel_elements = find_carousel_elements H p
      in case find_regular_clickables H p seen_elements of
           (clickable_elements, seen') \<Rightarrow> (clickable_elements @ carousel_elements, seen'))"

text \<open>
  The cursor and listener loops of the sequential file: they share \<open>unique_ids\<close> with the
  structural loop and tag a descriptor only when they admit it.
\<close>

fun tagged_sweep_seq :: "hashes \<Rightarrow> string \<Rightarrow> dom_element list \<Rightarrow> sweep_state \<Rightarrow> sweep_state" where
  "tagged_sweep_seq H method [] st = st"
| "tagged_sweep_seq H method (el # els) (seen_elements, unique_ids, clickable_elements) =
     (if admissible el then
        (case extract_element_info H seen_elements el of
           (Some info, seen') \<Rightarrow>
             if unique_id info \<notin> unique_ids then
               tagged_sweep_seq H method els
                 (seen', insert (unique_id info) unique_ids,
                  clickable_elements @ [info\<lparr>detection_method := Some method\<rparr>])
             else tagged_sweep_seq H method els (seen', unique_ids, clickable_elements)
         | (None, seen') \<Rightarrow> tagged_sweep_seq H method els (seen', unique_ids, clickable_elements))
      else tagged_sweep_seq H method els (seen_elements, unique_ids, clickable_elements))"

text \<open>\<open>find_clickable_elements\<close> of the sequential file.\<close>

definition find_clickable_elements_seq ::
  "hashes \<Rightarrow> page \<Rightarrow> string set \<Rightarrow> element_info list \<times> string set" where
  "find_clickable_elements_seq H p seen_elements =
     (let carousel_elements = carousel_sweep (extract_element_info_for_hidden_seq H) (carousel_hits p)
      in case tagged_sweep_seq H ''event_listener'' (listener_hits p)
                (tagged_sweep_seq H ''pointer_cursor'' (pointer_hits p)
                   (structural_sweep H (structural_hits p) (seen_elements, {}, []))) of
           (seen', unique_ids, clickable_elements) \<Rightarrow>
             (clickable_elements @ carousel_elements, seen'))"

section \<open>Concrete inputs\<close>

text \<open>A descriptor of an anchor with the given href, as the structural sweep produces it.\<close>

definition link_info :: "string \<Rightarrow> element_info" where
  "link_info h =
     \<lparr>tag_name = ''a'', text' = ''More'', class_names = ''btn'', ident = [],
      href = h, onclick = [], xpath = ''/html/body/a[1]'', is_displayed = True,
      is_enabled = True, unique_id = Md5 ''0'', is_carousel_element = False,
      detection_method = None\<rparr>"

text \<open>A descriptor with an id and two classes, so that all three strategies apply.\<close>

definition button_info :: element_info where
  "button_info = (link_info ''/about'')\<lparr>ident := ''go'', class_names := ''btn wide''\<rparr>"

section \<open>Auxiliary notions\<close>

text \<open>The size the loop gives batch \<open>i\<close>: \<open>current_batch_size\<close>.\<close>

definition batch_size_at :: "nat \<Rightarrow> nat \<Rightarrow> nat \<Rightarrow> nat" where
  "batch_size_at batch_size remainder i = batch_size + (if i < remainder then 1 else 0)"

text \<open>The counters agree with the result list: each counts the results of its kind, the
  three kinds cover the list, and \<open>elements_tested\<close> is the list's length.\<close>

definition accounted :: "test_results \<Rightarrow> bool" where
  "accounted tr =
     (active_clicks tr = length (filter (\<lambda>r. startswith (click_status r) ''active'') (results tr))
    \<and> dead_clicks tr = length (filter (\<lambda>r. click_status r = ''dead_click'') (results tr))
    \<and> errors tr = length (filter (\<lambda>r. \<not> startswith (click_status r) ''active''
                                       \<and> click_status r \<noteq> ''dead_click'') (results tr))
    \<and> active_clicks tr + dead_clicks tr + errors tr = elements_tested tr
    \<and> elements_tested tr = length (results tr))"

text \<open>The click went through: directly, or by the script click after an interception.\<close>

definition clicked :: "session \<Rightarrow> bool" where
  "clicked sess =
     (case el_click sess of
        Inr u \<Rightarrow> True
      | Inl (ElementClickInterceptedException m) \<Rightarrow>
          (case script_click sess of Inr u \<Rightarrow> True | Inl e \<Rightarrow> False)
      | Inl e \<Rightarrow> False)"

text \<open>Both overlay lookups answered and one of them found something.\<close>

definition overlay_present :: "session \<Rightarrow> bool" where
  "overlay_present sess =
     (case find_modals sess of
        Inl e \<Rightarrow> False
      | Inr modals \<Rightarrow>
          (case find_dropdowns sess of
             Inl e \<Rightarrow> False
           | Inr dropdowns \<Rightarrow> modals \<noteq> [] \<or> dropdowns \<noteq> []))"

text \<open>The ten classifications the specification lists.\<close>

definition classifications :: "string set" where
  "classifications =
     {''active_navigation'', ''active_title_change'', ''active_ui_change'', ''dead_click'',
      ''not_clickable'', ''element_not_found'', ''click_intercepted'', ''stale_element'',
      ''timeout'', ''error''}"

text \<open>The batch's driver answered before the element was tested.\<close>

definition driver_answered :: "string \<Rightarrow> batch_step \<Rightarrow> bool" where
  "driver_answered u step =
     (case batch_current_url step of
        Inl e \<Rightarrow> False
      | Inr current \<Rightarrow> (if current \<noteq> u then (case batch_get step of Inl e \<Rightarrow> False | Inr x \<Rightarrow> True)
                        else True))"

text \<open>What one strategy yields on its own: the candidate it accepts, or \<open>None\<close> when the
  strategy does not apply, its lookup or a read raises, or no candidate is accepted.\<close>

definition strategy_outcome ::
  "lookup \<Rightarrow> (web_element \<Rightarrow> exn + bool) \<Rightarrow> (by_strategy \<times> string) option \<Rightarrow> web_element option" where
  "strategy_outcome lk ok s = try_strategies lk ok [s]"

text \<open>
  The elements the regular sweeps meet, in order, each with the tag its sweep gives a
  descriptor (none in the structural sweep), and the plain pass over such a list: extract
  every admissible element against the running set and keep what is returned.
\<close>

definition sweep_order :: "page \<Rightarrow> (string option \<times> dom_element) list" where
  "sweep_order p =
     map (Pair None) (structural_hits p)
     @ map (Pair (Some ''pointer_cursor'')) (pointer_hits p)
     @ map (Pair (Some ''event_listener'')) (listener_hits p)"

fun admit_each ::
  "hashes \<Rightarrow> (string option \<times> dom_element) list \<Rightarrow> string set \<Rightarrow> element_info list \<times> string set" where
  "admit_each H [] seen_elements = ([], seen_elements)"
| "admit_each H ((m, el) # rest) seen_elements =
     (if admissible el then
        (case extract_element_info H seen_elements el of
           (Some info, seen') \<Rightarrow>
             (case admit_each H rest seen' of
                (ds, seen'') \<Rightarrow> (info\<lparr>detection_method := m\<rparr> # ds, seen''))
         | (None, seen') \<Rightarrow> admit_each H rest seen')
      else admit_each H rest seen_elements)"

text \<open>A descriptor carries the five fingerprinted fields of an element.\<close>

definition describes :: "element_info \<Rightarrow> dom_element \<Rightarrow> bool" where
  "describes d el =
     (tag_name d = dom_tag_name el \<and> text' d = take 100 (strip (dom_text el))
      \<and> href d = or_empty (dom_href el) \<and> class_names d = or_empty (dom_class el)
      \<and> ident d = or_empty (dom_id el))"

section \<open>Concrete sessions\<close>

text \<open>A live anchor as the lookups return it, shown or hidden.\<close>

definition anchor :: "nat \<Rightarrow> bool \<Rightarrow> web_element" where
  "anchor n shown =
     \<lparr>handle = n, we_is_displayed = Inr shown, we_tag_name = Inr ''a'', we_text = Inr '' More ''\<rparr>"

text \<open>A session on \<open>http://site/\<close> in which every lookup finds the one shown anchor, the
  click goes through and nothing changes afterwards.\<close>

definition quiet_session :: session where
  "quiet_session =
     \<lparr>find_elements = (\<lambda>b v. Inr [anchor 1 True]),
      carousel_containers = Inr [],
      first_current_url = Inr ''http://site/'',
      first_title = Inr ''Home'',
      scroll_into_view = Inr (),
      el_is_displayed = Inr True,
      el_is_enabled = Inr True,
      el_click = Inr (),
      script_click = Inr (),
      second_current_url = Inr ''http://site/'',
      second_title = Inr ''Home'',
      find_modals = Inr [],
      find_dropdowns = Inr []\<rparr>"

text \<open>The same session when the click leads to another page with another title and a
  dialog.\<close>

definition navigating_session :: session where
  "navigating_session =
     quiet_session\<lparr>second_current_url := Inr ''http://site/about'',
                   second_title := Inr ''About'',
                   find_modals := Inr [anchor 2 True]\<rparr>"

text \<open>Sessions whose first read raises: the driver timed out, or the page was replaced.\<close>

definition timing_out_session :: session where
  "timing_out_session = quiet_session\<lparr>first_current_url := Inl (TimeoutException ''timed out'')\<rparr>"

definition stale_session :: session where
  "stale_session =
     quiet_session\<lparr>el_is_displayed := Inl (StaleElementReferenceException ''stale element'')\<rparr>"

text \<open>Steps of the two runs around such sessions; in \<open>lost_driver_step\<close> the batch's
  driver no longer answers \<open>current_url\<close>.\<close>

definition seq_step_of :: "session \<Rightarrow> seq_step" where
  "seq_step_of sess =
     \<lparr>seq_get = Inr (), seq_current_url = Inr ''http://site/'', seq_get_again = Inr (),
      seq_session = sess\<rparr>"

definition batch_step_of :: "session \<Rightarrow> batch_step" where
  "batch_step_of sess =
     \<lparr>batch_current_url = Inr ''http://site/'', batch_get = Inr (), batch_session = sess\<rparr>"

definition lost_driver_step :: batch_step where
  "lost_driver_step =
     \<lparr>batch_current_url = Inl (OtherException ''invalid session id''), batch_get = Inr (),
      batch_session = quiet_session\<rparr>"

text \<open>A lookup for the locator: no element has the id, the structural path finds a
  hidden anchor before a shown one, and the class selector raises.\<close>

definition sample_lookup :: lookup where
  "sample_lookup b v =
     (case b of
        By_ID \<Rightarrow> Inr []
      | By_XPATH \<Rightarrow> Inr [anchor 1 False, anchor 2 True]
      | By_CSS_SELECTOR \<Rightarrow> Inl (OtherException ''invalid selector''))"

section \<open>Concrete pages\<close>

text \<open>A displayed, enabled anchor outside header, footer and carousels, with the given
  href and inline handler.\<close>

definition dom_link :: "string \<Rightarrow> string option \<Rightarrow> dom_element" where
  "dom_link h handler =
     \<lparr>dom_tag_name = ''a'', dom_text = '' More '', dom_class = Some ''btn'', dom_href = Some h,
      dom_onclick = handler, dom_id = None, dom_is_displayed = True, dom_is_enabled = True,
      dom_in_header_or_footer = False, dom_in_carousel = False,
      dom_xpath = ''/html/body/a[1]'', dom_location = ''{x: 10, y: 20}'',
      dom_fault = NoFault, dom_hidden_fault = False\<rparr>"

text \<open>A page with one link, which the selector \<open>a\<close> matches.\<close>

definition one_link_page :: page where
  "one_link_page =
     \<lparr>structural_hits = [dom_link ''/about'' None], pointer_hits = [], listener_hits = [],
      carousel_hits = []\<rparr>"





chapter \<open>Properties\<close>

section \<open>The inert-target test\<close>

lemma of_char_lower_char:
  "(of_char (lower_char c) :: nat) =
     (if (65 \<le> (of_char c :: nat) \<and> (of_char c :: nat) \<le> 90)
         \<or> (192 \<le> (of_char c :: nat) \<and> (of_char c :: nat) \<le> 222 \<and> (of_char c :: nat) \<noteq> 215)
      then of_char c + 32 else of_char c)"
  by (auto simp: lower_char_def Let_def)

lemma lower_char_eq_space: "lower_char c = CHR '' '' \<longleftrightarrow> c = CHR '' ''"
proof
  assume "lower_char c = CHR '' ''"
  then have "(of_char (lower_char c) :: nat) = of_char (CHR '' '')" by simp
  then have "(of_char c :: nat) = 32"
    by (simp add: of_char_lower_char split: if_splits)
  then have "(of_char c :: nat) = of_char (CHR '' '')" by simp
  then show "c = CHR '' ''" by (simp only: of_char_eq_iff)
next
  assume "c = CHR '' ''"
  then show "lower_char c = CHR '' ''" by (simp add: lower_char_def)
qed

text \<open>After the spaces are removed no normalised href is the single space, so the
  fourth entry of the list can never be hit.\<close>

lemma normalised_href_never_space: "lower (replace_spaces s) \<noteq> '' ''"
proof
  assume "lower (replace_spaces s) = '' ''"
  then obtain c where "replace_spaces s = [c]" "lower_char c = CHR '' ''"
    by (auto simp: lower_def map_eq_Cons_conv)
  then have "CHR '' '' \<in> set (replace_spaces s)"
    by (simp add: lower_char_eq_space)
  then show False by (simp add: replace_spaces_def)
qed

lemma is_dead_click_by_href_iff:
  "is_dead_click_by_href info \<longleftrightarrow>
     lower (replace_spaces (href info)) \<in> {''javascript:void(0)'', ''javascript::void(0)'', ''#''}"
  using normalised_href_never_space [of "href info"]
  by (auto simp: is_dead_click_by_href_def)

lemma inert_examples:
  "is_dead_click_by_href (link_info ''#'')"
  "is_dead_click_by_href (link_info ''JavaScript: void(0)'')"
  "is_dead_click_by_href (link_info ''javascript::void(0)'')"
  "\<not> is_dead_click_by_href (link_info ''javascript:doSomething()'')"
  "\<not> is_dead_click_by_href (link_info ''/about'')"
  by code_simp+

text \<open>
  Claim C2. \<open>is_dead_click_by_href\<close> is to return true for an href that is a single
  space. The code removes the spaces before it compares, so the href \<open>' '\<close> is compared
  as the empty string, which is not in the list: the function returns false there.
\<close>

theorem single_space_href_is_not_dead:
  "is_dead_click_by_href (link_info '' '') = False"
  by (simp add: is_dead_click_by_href_def link_info_def replace_spaces_def lower_def)

section \<open>Batch partitioning is balanced\<close>

lemma concat_divide_loop:
  "concat (divide_loop xs b r js s) = take (sum_list (map (batch_size_at b r) js)) (drop s xs)"
proof (induction js arbitrary: s)
  case Nil
  then show ?case by simp
next
  case (Cons i js)
  have "concat (divide_loop xs b r (i # js) s)
      = take (batch_size_at b r i) (drop s xs) @ concat (divide_loop xs b r js (s + batch_size_at b r i))"
    by (simp add: Let_def slice_def batch_size_at_def)
  also have "\<dots> = take (batch_size_at b r i) (drop s xs)
                 @ take (sum_list (map (batch_size_at b r) js)) (drop (batch_size_at b r i) (drop s xs))"
    by (simp add: Cons.IH add.commute)
  also have "\<dots> = take (batch_size_at b r i + sum_list (map (batch_size_at b r) js)) (drop s xs)"
    by (simp add: take_add)
  finally show ?case by simp
qed

lemma divide_loop_Cons:
  "divide_loop xs b r (i # js) s =
     (if slice xs s (s + batch_size_at b r i) \<noteq> [] then [slice xs s (s + batch_size_at b r i)] else [])
     @ divide_loop xs b r js (s + batch_size_at b r i)"
  by (simp add: Let_def batch_size_at_def)

lemma lengths_divide_loop:
  "s + sum_list (map (batch_size_at b r) js) \<le> length xs \<Longrightarrow>
   map length (divide_loop xs b r js s) = filter (\<lambda>n. n \<noteq> 0) (map (batch_size_at b r) js)"
proof (induction js arbitrary: s)
  case Nil
  then show ?case by simp
next
  case (Cons i js)
  let ?c = "batch_size_at b r i"
  from Cons.prems have le: "s + ?c \<le> length xs"
    and rest: "(s + ?c) + sum_list (map (batch_size_at b r) js) \<le> length xs"
    by simp_all
  have len: "length (slice xs s (s + ?c)) = ?c"
    using le by (simp add: slice_def)
  have tl: "map length (divide_loop xs b r js (s + ?c)) = filter (\<lambda>n. n \<noteq> 0) (map (batch_size_at b r) js)"
    by (rule Cons.IH [OF rest])
  show ?case
  proof (cases "?c = 0")
    case True
    with len have "slice xs s (s + ?c) = []" by simp
    with True tl show ?thesis by (simp add: divide_loop_Cons del: divide_loop.simps)
  next
    case False
    with len have "slice xs s (s + ?c) \<noteq> []" by auto
    with False tl len show ?thesis
      by (simp add: divide_loop_Cons del: divide_loop.simps)
  qed
qed

lemma sum_batch_sizes:
  "sum_list (map (batch_size_at b r) [0..<k]) = k * b + min k r"
  by (induction k) (auto simp: batch_size_at_def)

lemma nonzero_batch_sizes:
  assumes "r < k"
  shows "filter (\<lambda>n. n \<noteq> 0) (map (batch_size_at b r) [0..<k])
         = map (batch_size_at b r) [0..<(if b = 0 then r else k)]"
proof (cases "b = 0")
  case False
  then show ?thesis by (simp add: batch_size_at_def filter_map o_def)
next
  case True
  have split: "[0..<k] = [0..<r] @ [r..<k]"
    using assms by (metis less_imp_le_nat upt_add_eq_append le0 le_add_diff_inverse)
  have "filter (\<lambda>n. n \<noteq> 0) (map (batch_size_at b r) [0..<r]) = map (batch_size_at b r) [0..<r]"
    by (simp add: batch_size_at_def filter_map o_def)
  moreover have "filter (\<lambda>n. n \<noteq> 0) (map (batch_size_at b r) [r..<k]) = []"
    by (simp add: batch_size_at_def True filter_map o_def)
  ultimately show ?thesis using True by (simp add: split)
qed

lemma divide_loop_all:
  assumes "0 < k"
  shows "concat (divide_loop xs (length xs div k) (length xs mod k) [0..<k] 0) = xs"
    and "map length (divide_loop xs (length xs div k) (length xs mod k) [0..<k] 0)
         = map (batch_size_at (length xs div k) (length xs mod k)) [0..<min (length xs) k]"
proof -
  let ?b = "length xs div k" and ?r = "length xs mod k"
  have r: "?r < k" using assms by simp
  have total: "sum_list (map (batch_size_at ?b ?r) [0..<k]) = length xs"
    using r by (simp add: sum_batch_sizes min_def)
  show "concat (divide_loop xs ?b ?r [0..<k] 0) = xs"
    by (simp add: concat_divide_loop total)
  have "(if ?b = 0 then ?r else k) = min (length xs) k"
  proof (cases "length xs < k")
    case True
    then show ?thesis by simp
  next
    case False
    with assms have "0 < ?b" by (simp add: div_greater_zero_iff)
    with False show ?thesis by simp
  qed
  then show "map length (divide_loop xs ?b ?r [0..<k] 0)
         = map (batch_size_at ?b ?r) [0..<min (length xs) k]"
    using lengths_divide_loop [of 0 ?b ?r "[0..<k]" xs] nonzero_batch_sizes [OF r, of ?b]
    by (simp add: total)
qed

lemma floor_or_ceiling:
  assumes "0 < k"
  shows "int (batch_size_at (n div k) (n mod k) i) = \<lfloor>real n / real k\<rfloor>
       \<or> int (batch_size_at (n div k) (n mod k) i) = \<lceil>real n / real k\<rceil>"
proof -
  have fl: "\<lfloor>real n / real k\<rfloor> = int (n div k)"
    by (simp add: floor_divide_of_nat_eq)
  have "\<lceil>real n / real k\<rceil> = \<lceil>real_of_int (int n) / real_of_int (int k)\<rceil>" by simp
  also have "\<dots> = - ((- int n) div int k)" by (rule ceiling_divide_eq_div)
  also have "\<dots> = int (n div k) + (if n mod k = 0 then 0 else 1)"
  proof -
    have m: "(n mod k = 0) = (int n mod int k = 0)"
      by (metis of_nat_eq_0_iff of_nat_mod)
    have d: "int (n div k) = int n div int k"
      by (simp add: of_nat_div)
    from assms have "int k \<noteq> 0" by simp
    then show ?thesis
      unfolding m d by (simp add: zdiv_zminus1_eq_if)
  qed
  finally have ce: "\<lceil>real n / real k\<rceil> = int (n div k) + (if n mod k = 0 then 0 else 1)" .
  show ?thesis
    unfolding fl ce by (auto simp: batch_size_at_def)
qed

lemma distinct_concat_disjoint:
  "distinct (concat xss) \<Longrightarrow> i < j \<Longrightarrow> j < length xss \<Longrightarrow> set (xss ! i) \<inter> set (xss ! j) = {}"
proof (induction xss arbitrary: i j)
  case Nil
  then show ?case by simp
next
  case (Cons a xss)
  show ?case
  proof (cases i)
    case 0
    with Cons.prems obtain j' where j: "j = Suc j'" "j' < length xss"
      by (cases j) auto
    then have "xss ! j' \<in> set xss" by simp
    then have "set (xss ! j') \<subseteq> set (concat xss)" by auto
    with Cons.prems(1) 0 j show ?thesis by auto
  next
    case (Suc i')
    with Cons.prems obtain j' where j: "j = Suc j'" "i' < j'" "j' < length xss"
      by (cases j) auto
    with Cons.prems(1) Cons.IH [of i' j'] Suc show ?thesis by simp
  qed
qed

text \<open>
  Claim C3. For a list of N elements and K > 0 batches the function returns batches
  whose concatenation is the list again (so every position of the list lies in exactly
  one batch, and the sizes sum to N); batch i has size N div K, plus one when
  i < N mod K, which is either the floor or the ceiling of N / K; and when the elements
  are pairwise different no element occurs in two batches. Empty batches are not
  produced, so there are min N K of them.
\<close>

theorem divide_elements_into_batches_balanced:
  assumes "0 < num_batches"
  shows "\<exists>batches.
           divide_elements_into_batches elements num_batches = Inr batches
         \<and> concat batches = elements
         \<and> sum_list (map length batches) = length elements
         \<and> length batches = min (length elements) (nat num_batches)
         \<and> (\<forall>i < length batches.
               length (batches ! i) =
                 length elements div nat num_batches
                   + (if i < length elements mod nat num_batches then 1 else 0))
         \<and> (\<forall>b \<in> set batches.
               int (length b) = \<lfloor>real (length elements) / real_of_int num_batches\<rfloor>
             \<or> int (length b) = \<lceil>real (length elements) / real_of_int num_batches\<rceil>)
         \<and> (distinct elements \<longrightarrow>
               (\<forall>i j. i < j \<and> j < length batches \<longrightarrow> set (batches ! i) \<inter> set (batches ! j) = {}))"
proof -
  define k where "k = nat num_batches"
  define bs where "bs = divide_loop elements (length elements div k) (length elements mod k) [0..<k] 0"
  from assms have k: "0 < k" and nk: "num_batches = int k" by (simp_all add: k_def)
  have res: "divide_elements_into_batches elements num_batches = Inr bs"
    using assms by (simp add: divide_elements_into_batches_def bs_def k_def)
  have cc: "concat bs = elements"
    unfolding bs_def by (rule divide_loop_all(1) [OF k])
  have lens: "map length bs
        = map (batch_size_at (length elements div k) (length elements mod k)) [0..<min (length elements) k]"
    unfolding bs_def by (rule divide_loop_all(2) [OF k])
  have n: "length bs = min (length elements) k"
    using arg_cong [OF lens, of length] by simp
  have at: "length (bs ! i) = batch_size_at (length elements div k) (length elements mod k) i"
    if "i < length bs" for i
  proof -
    have "length (bs ! i) = map length bs ! i" using that by simp
    also have "\<dots> = batch_size_at (length elements div k) (length elements mod k) i"
      using that n unfolding lens by simp
    finally show ?thesis .
  qed
  have total: "sum_list (map length bs) = length elements"
    using arg_cong [OF cc, of length] by (simp add: length_concat)
  have fc: "int (length b) = \<lfloor>real (length elements) / real_of_int num_batches\<rfloor>
          \<or> int (length b) = \<lceil>real (length elements) / real_of_int num_batches\<rceil>"
    if "b \<in> set bs" for b
  proof -
    from that obtain i where "i < length bs" "b = bs ! i" by (auto simp: in_set_conv_nth)
    then have "length b = batch_size_at (length elements div k) (length elements mod k) i"
      using at by simp
    then show ?thesis
      using floor_or_ceiling [OF k, of "length elements" i] by (simp add: nk)
  qed
  have dj: "set (bs ! i) \<inter> set (bs ! j) = {}"
    if "distinct elements" "i < j" "j < length bs" for i j
    using that distinct_concat_disjoint [of bs i j] by (simp add: cc)
  show ?thesis
    apply (rule exI [of _ bs])
    using res cc total n at fc dj
    by (simp add: batch_size_at_def k_def)
qed

theorem divide_elements_into_batches_balanced_witness:
  "divide_elements_into_batches ''abcdefg'' 3 = Inr [''abc'', ''de'', ''fg'']
   \<and> (\<exists>batches.
           divide_elements_into_batches ''abcdefg'' 3 = Inr batches
         \<and> concat batches = ''abcdefg''
         \<and> sum_list (map length batches) = 7
         \<and> length batches = 3)"
proof -
  have ev: "divide_elements_into_batches ''abcdefg'' 3 = Inr [''abc'', ''de'', ''fg'']"
    by code_simp
  have pos: "(0::int) < 3" by simp
  from divide_elements_into_batches_balanced [OF pos, of "''abcdefg''"]
  obtain batches where "divide_elements_into_batches ''abcdefg'' 3 = Inr batches"
    "concat batches = ''abcdefg''" "sum_list (map length batches) = length ''abcdefg''"
    "length batches = min (length ''abcdefg'') (nat 3)"
    by blast
  then show ?thesis using ev by simp
qed

section \<open>Outcome accounting\<close>

lemma dead_click_not_active: "\<not> startswith ''dead_click'' ''active''"
  by (simp add: startswith_def)

lemma update_counters_fields:
  "results (update_counters r tr) = results tr"
  "elements_tested (update_counters r tr) = elements_tested tr"
  by (simp_all add: update_counters_def)

lemma update_counters_one:
  "active_clicks (update_counters r tr) + dead_clicks (update_counters r tr) + errors (update_counters r tr)
     = active_clicks tr + dead_clicks tr + errors tr + 1"
  by (simp add: update_counters_def)

lemma accounted_step:
  assumes "accounted tr"
  shows "accounted (update_counters r
           (tr\<lparr>results := results tr @ [r], elements_tested := elements_tested tr + 1\<rparr>))"
  using assms dead_click_not_active
  by (auto simp: accounted_def update_counters_def)

lemma accounted_new: "accounted (new_test_results u n)"
  by (simp add: accounted_def new_test_results_def)

lemma test_each_accounted:
  "accounted tr \<Longrightarrow> test_each u els tr = Inr tr' \<Longrightarrow> accounted tr'"
proof (induction els arbitrary: tr)
  case Nil
  then show ?case by simp
next
  case (Cons a els)
  obtain info step where a: "a = (info, step)" by (cases a)
  let ?r = "test_element_click (seq_session step) info"
  let ?tr = "update_counters ?r (tr\<lparr>results := results tr @ [?r], elements_tested := elements_tested tr + 1\<rparr>)"
  from Cons.prems(2) have "test_each u els ?tr = Inr tr'"
    by (simp add: a Let_def split: sum.splits)
  moreover have "accounted ?tr" by (rule accounted_step [OF Cons.prems(1)])
  ultimately show ?case by (rule Cons.IH [rotated])
qed

lemma test_each_length:
  "test_each u els tr = Inr tr' \<Longrightarrow> length (results tr') = length (results tr) + length els"
proof (induction els arbitrary: tr)
  case Nil
  then show ?case by simp
next
  case (Cons a els)
  obtain info step where a: "a = (info, step)" by (cases a)
  let ?r = "test_element_click (seq_session step) info"
  let ?tr = "update_counters ?r (tr\<lparr>results := results tr @ [?r], elements_tested := elements_tested tr + 1\<rparr>)"
  from Cons.prems have "test_each u els ?tr = Inr tr'"
    by (simp add: a Let_def split: sum.splits)
  from Cons.IH [OF this] show ?case by (simp add: update_counters_fields)
qed

lemma collect_batches_fields:
  "active_clicks (collect_batches os tr) = active_clicks tr"
  "dead_clicks (collect_batches os tr) = dead_clicks tr"
  "errors (collect_batches os tr) = errors tr"
  by (induction os tr rule: collect_batches.induct) simp_all

lemma collect_batches_tested:
  "elements_tested tr = length (results tr) \<Longrightarrow>
   elements_tested (collect_batches os tr) = length (results (collect_batches os tr))"
  by (induction os tr rule: collect_batches.induct) simp_all

lemma count_results_fields:
  "results (count_results rs tr) = results tr"
  "elements_tested (count_results rs tr) = elements_tested tr"
  by (induction rs arbitrary: tr) (simp_all add: update_counters_fields)

lemma count_results_counts:
  "active_clicks (count_results rs tr)
     = active_clicks tr + length (filter (\<lambda>r. startswith (click_status r) ''active'') rs)"
  "dead_clicks (count_results rs tr)
     = dead_clicks tr + length (filter (\<lambda>r. click_status r = ''dead_click'') rs)"
  "errors (count_results rs tr)
     = errors tr + length (filter (\<lambda>r. \<not> startswith (click_status r) ''active''
                                       \<and> click_status r \<noteq> ''dead_click'') rs)"
  using dead_click_not_active
  by (induction rs arbitrary: tr) (auto simp: update_counters_def)

lemma three_way_partition:
  "length (filter (\<lambda>r. startswith (click_status r) ''active'') rs)
   + length (filter (\<lambda>r. click_status r = ''dead_click'') rs)
   + length (filter (\<lambda>r. \<not> startswith (click_status r) ''active''
                                       \<and> click_status r \<noteq> ''dead_click'') rs) = length rs"
  using dead_click_not_active by (induction rs) auto

lemma count_after_collect_accounted:
  assumes "tr = collect_batches os (new_test_results u n)"
  shows "accounted (count_results (results tr) tr)"
proof -
  have t: "elements_tested tr = length (results tr)"
    unfolding assms by (rule collect_batches_tested) (simp add: new_test_results_def)
  have z: "active_clicks tr = 0" "dead_clicks tr = 0" "errors tr = 0"
    unfolding assms by (simp_all add: collect_batches_fields new_test_results_def)
  show ?thesis
    unfolding accounted_def
    using t z three_way_partition [of "results tr"]
    by (simp add: count_results_fields count_results_counts)
qed

text \<open>
  Claim C10. After a completed run, sequential or concurrent, each counter is the number
  of results of its kind (\<open>active_clicks\<close>: status starts with \<open>active\<close>; \<open>dead_clicks\<close>:
  status is \<open>dead_click\<close>; \<open>errors\<close>: every other status), the three kinds are disjoint
  and cover the result list, so the counters add up to \<open>elements_tested\<close>, which is the
  length of the result list. A run that ended in its outer \<open>except\<close> returns no counters.
\<close>

theorem outcome_accounting:
  "(run_comprehensive_test u clickable_elements = Inr tr \<longrightarrow>
      accounted tr \<and> length (results tr) = length clickable_elements)
   \<and> (run_comprehensive_test_concurrent u batch_elements pool_size completed = Inr tr' \<longrightarrow>
      accounted tr')"
proof (intro conjI impI)
  assume "run_comprehensive_test u clickable_elements = Inr tr"
  then have run: "test_each u clickable_elements (new_test_results u (length clickable_elements)) = Inr tr"
    by (simp add: run_comprehensive_test_def split: sum.splits)
  show "accounted tr"
    by (rule test_each_accounted [OF accounted_new run])
  show "length (results tr) = length clickable_elements"
    using test_each_length [OF run] by (simp add: new_test_results_def)
next
  assume "run_comprehensive_test_concurrent u batch_elements pool_size completed = Inr tr'"
  then obtain os where
    "tr' = count_results (results (collect_batches os (new_test_results u (length batch_elements))))
             (collect_batches os (new_test_results u (length batch_elements)))"
    by (auto simp: run_comprehensive_test_concurrent_def Let_def split: if_splits sum.splits)
  then show "accounted tr'"
    using count_after_collect_accounted [OF refl] by simp
qed

theorem outcome_accounting_witness:
  "(\<exists>tr. run_comprehensive_test ''http://site/''
            [(link_info ''/about'', seq_step_of navigating_session),
             (link_info ''#'', seq_step_of quiet_session),
             (link_info ''/x'', seq_step_of timing_out_session)] = Inr tr
         \<and> accounted tr \<and> active_clicks tr = 1 \<and> dead_clicks tr = 1 \<and> errors tr = 1
         \<and> elements_tested tr = 3)
   \<and> (\<exists>tr'. run_comprehensive_test_concurrent ''http://site/''
            [(link_info ''/about'', batch_step_of navigating_session),
             (link_info ''#'', batch_step_of quiet_session),
             (link_info ''/x'', lost_driver_step)] 2 [1, 0] = Inr tr'
         \<and> accounted tr' \<and> active_clicks tr' = 1 \<and> dead_clicks tr' = 1 \<and> errors tr' = 1
         \<and> elements_tested tr' = 3)"
proof -
  let ?seq = "run_comprehensive_test ''http://site/''
            [(link_info ''/about'', seq_step_of navigating_session),
             (link_info ''#'', seq_step_of quiet_session),
             (link_info ''/x'', seq_step_of timing_out_session)]"
  let ?con = "run_comprehensive_test_concurrent ''http://site/''
            [(link_info ''/about'', batch_step_of navigating_session),
             (link_info ''#'', batch_step_of quiet_session),
             (link_info ''/x'', lost_driver_step)] 2 [1, 0]"
  have s: "case ?seq of Inl e \<Rightarrow> False
           | Inr tr \<Rightarrow> active_clicks tr = 1 \<and> dead_clicks tr = 1 \<and> errors tr = 1 \<and> elements_tested tr = 3"
    by code_simp
  have c: "case ?con of Inl e \<Rightarrow> False
           | Inr tr \<Rightarrow> active_clicks tr = 1 \<and> dead_clicks tr = 1 \<and> errors tr = 1 \<and> elements_tested tr = 3"
    by code_simp
  from s obtain tr where tr: "?seq = Inr tr" "active_clicks tr = 1" "dead_clicks tr = 1" "errors tr = 1"
      "elements_tested tr = 3"
    by (auto split: sum.splits)
  from c obtain tr' where tr': "?con = Inr tr'" "active_clicks tr' = 1" "dead_clicks tr' = 1" "errors tr' = 1"
      "elements_tested tr' = 3"
    by (auto split: sum.splits)
  from outcome_accounting [of "''http://site/''" _ tr _ 2 "[1, 0]" tr'] tr(1) tr'(1)
  have "accounted tr" "accounted tr'" by simp_all
  with tr tr' show ?thesis by simp
qed

section \<open>Classification priority\<close>

lemma click_status_classify_observed:
  "click_status (classify_observed sess info initial_url initial_title current_url current_title result) =
     (if is_dead_click_by_href info then ''dead_click''
      else if current_url \<noteq> initial_url then ''active_navigation''
      else if current_title \<noteq> initial_title then ''active_title_change''
      else if overlay_present sess then ''active_ui_change''
      else ''dead_click'')"
  by (simp add: classify_observed_def overlay_present_def split: sum.splits)

lemma click_and_observe_clicked:
  assumes "clicked sess"
  shows "click_and_observe sess info initial_url initial_title result
         = after_click sess info initial_url initial_title result"
  using assms
  by (auto simp: clicked_def click_and_observe_def split: sum.splits exn.splits)

lemma try_body_observed:
  assumes "first_current_url sess = Inr initial_url" and "first_title sess = Inr initial_title"
    and "located = Some element"
    and "scroll_into_view sess = Inr ()"
    and "el_is_displayed sess = Inr True" and "el_is_enabled sess = Inr True"
    and "clicked sess"
    and "second_current_url sess = Inr current_url" and "second_title sess = Inr current_title"
  shows "try_body sess info located result =
           (None, classify_observed sess info initial_url initial_title current_url current_title
                    (result\<lparr>url_before := initial_url, url_after := current_url\<rparr>))"
  using assms
  by (simp add: try_body_def Let_def click_and_observe_clicked after_click_def)

text \<open>
  Claim C1. Once the classifier has located the element, found it displayed and enabled,
  clicked it (directly or by the script click) and read URL and title again, the status
  follows the priority order: an inert href gives \<open>dead_click\<close> whatever else changed;
  otherwise a changed URL gives \<open>active_navigation\<close>; otherwise a changed title gives
  \<open>active_title_change\<close>; otherwise an overlay found by the two lookups gives
  \<open>active_ui_change\<close>; otherwise \<open>dead_click\<close>. This holds for the sequential and for the
  per-driver classifier.
\<close>

theorem classification_priority:
  assumes "first_current_url sess = Inr initial_url" and "first_title sess = Inr initial_title"
    and "scroll_into_view sess = Inr ()"
    and "el_is_displayed sess = Inr True" and "el_is_enabled sess = Inr True"
    and "clicked sess"
    and "second_current_url sess = Inr current_url" and "second_title sess = Inr current_title"
  shows "((if is_carousel_element info then find_and_prepare_carousel_element sess info
           else find_element_by_info (find_elements sess) info) \<noteq> None \<longrightarrow>
          click_status (test_element_click sess info) =
            (if is_dead_click_by_href info then ''dead_click''
             else if current_url \<noteq> initial_url then ''active_navigation''
             else if current_title \<noteq> initial_title then ''active_title_change''
             else if overlay_present sess then ''active_ui_change''
             else ''dead_click''))
       \<and> (find_element_by_info_with_driver (find_elements sess) info \<noteq> None \<longrightarrow>
          click_status (test_element_click_with_driver sess info) =
            (if is_dead_click_by_href info then ''dead_click''
             else if current_url \<noteq> initial_url then ''active_navigation''
             else if current_title \<noteq> initial_title then ''active_title_change''
             else if overlay_present sess then ''active_ui_change''
             else ''dead_click''))"
proof (intro conjI impI)
  assume "(if is_carousel_element info then find_and_prepare_carousel_element sess info
           else find_element_by_info (find_elements sess) info) \<noteq> None"
  then obtain element where
    "(if is_carousel_element info then find_and_prepare_carousel_element sess info
      else find_element_by_info (find_elements sess) info) = Some element"
    by blast
  then show "click_status (test_element_click sess info) =
            (if is_dead_click_by_href info then ''dead_click''
             else if current_url \<noteq> initial_url then ''active_navigation''
             else if current_title \<noteq> initial_title then ''active_title_change''
             else if overlay_present sess then ''active_ui_change''
             else ''dead_click'')"
    unfolding test_element_click_def Let_def
    by (simp only: try_body_observed [OF assms(1,2) _ assms(3-8)] prod.case option.case
          click_status_classify_observed)
next
  assume "find_element_by_info_with_driver (find_elements sess) info \<noteq> None"
  then obtain element where
    "find_element_by_info_with_driver (find_elements sess) info = Some element"
    by blast
  then show "click_status (test_element_click_with_driver sess info) =
            (if is_dead_click_by_href info then ''dead_click''
             else if current_url \<noteq> initial_url then ''active_navigation''
             else if current_title \<noteq> initial_title then ''active_title_change''
             else if overlay_present sess then ''active_ui_change''
             else ''dead_click'')"
    unfolding test_element_click_with_driver_def
    by (simp only: try_body_observed [OF assms(1,2) _ assms(3-8)] prod.case option.case
          click_status_classify_observed)
qed

theorem classification_priority_witness:
  "click_status (test_element_click navigating_session (link_info ''#'')) = ''dead_click''
   \<and> click_status (test_element_click_with_driver navigating_session (link_info ''#'')) = ''dead_click''
   \<and> click_status (test_element_click navigating_session (link_info ''/about'')) = ''active_navigation''
   \<and> click_status (test_element_click_with_driver navigating_session (link_info ''/about''))
        = ''active_navigation''"
proof -
  have a: "first_current_url navigating_session = Inr ''http://site/''"
    "first_title navigating_session = Inr ''Home''"
    "scroll_into_view navigating_session = Inr ()"
    "el_is_displayed navigating_session = Inr True"
    "el_is_enabled navigating_session = Inr True"
    "clicked navigating_session"
    "second_current_url navigating_session = Inr ''http://site/about''"
    "second_title navigating_session = Inr ''About''"
    by (simp_all add: navigating_session_def quiet_session_def clicked_def)
  have loc: "(if is_carousel_element (link_info ''#'')
                then find_and_prepare_carousel_element navigating_session (link_info ''#'')
                else find_element_by_info (find_elements navigating_session) (link_info ''#'')) \<noteq> None"
    "find_element_by_info_with_driver (find_elements navigating_session) (link_info ''#'') \<noteq> None"
    "(if is_carousel_element (link_info ''/about'')
                then find_and_prepare_carousel_element navigating_session (link_info ''/about'')
                else find_element_by_info (find_elements navigating_session) (link_info ''/about'')) \<noteq> None"
    "find_element_by_info_with_driver (find_elements navigating_session) (link_info ''/about'') \<noteq> None"
    by code_simp+
  have inert: "is_dead_click_by_href (link_info ''#'')" "\<not> is_dead_click_by_href (link_info ''/about'')"
    by (rule inert_examples)+
  from classification_priority [OF a, of "link_info ''#''"] loc(1,2) inert(1)
  have "click_status (test_element_click navigating_session (link_info ''#'')) = ''dead_click''"
    "click_status (test_element_click_with_driver navigating_session (link_info ''#'')) = ''dead_click''"
    by simp_all
  moreover from classification_priority [OF a, of "link_info ''/about''"] loc(3,4) inert(2)
  have "click_status (test_element_click navigating_session (link_info ''/about'')) = ''active_navigation''"
    "click_status (test_element_click_with_driver navigating_session (link_info ''/about''))
        = ''active_navigation''"
    by simp_all
  ultimately show ?thesis by simp
qed

section \<open>Exceptions inside the classifier\<close>

text \<open>The handlers of the sequential classifier tell a timeout and a stale element from
  other exceptions; the per-driver classifier has the single handler.\<close>

lemma sequential_handlers:
  assumes "try_body sess info
             (if is_carousel_element info then find_and_prepare_carousel_element sess info
              else find_element_by_info (find_elements sess) info) (new_result info) = (Some e, r)"
  shows "click_status (test_element_click sess info) =
           (case e of TimeoutException m \<Rightarrow> ''timeout''
            | StaleElementReferenceException m \<Rightarrow> ''stale_element''
            | ElementClickInterceptedException m \<Rightarrow> ''error''
            | OtherException m \<Rightarrow> ''error'')"
    and "click_status (test_element_click sess info) = ''error'' \<Longrightarrow>
           error_message (test_element_click sess info) = str_exn e"
  using assms by (auto simp: test_element_click_def Let_def split: exn.splits)

lemma concurrent_handler:
  assumes "try_body sess info (find_element_by_info_with_driver (find_elements sess) info)
             (new_result info) = (Some e, r)"
  shows "click_status (test_element_click_with_driver sess info) = ''error''"
    and "error_message (test_element_click_with_driver sess info) = str_exn e"
  using assms by (simp_all add: test_element_click_with_driver_def)

text \<open>
  Claim C7. A timeout is to give \<open>timeout\<close> and a stale element \<open>stale_element\<close> in both
  classifiers. Where \<open>driver.current_url\<close> raises \<open>TimeoutException\<close>, or
  \<open>element.is_displayed()\<close> raises \<open>StaleElementReferenceException\<close>, the sequential
  classifier does so, and the per-driver classifier reports \<open>error\<close> with the exception's
  message.
\<close>

theorem concurrent_classifier_reports_timeout_as_error:
  "click_status (test_element_click_with_driver timing_out_session (link_info ''/about'')) = ''error''
   \<and> error_message (test_element_click_with_driver timing_out_session (link_info ''/about'')) = ''timed out''
   \<and> click_status (test_element_click timing_out_session (link_info ''/about'')) = ''timeout''
   \<and> click_status (test_element_click_with_driver stale_session (link_info ''/about'')) = ''error''
   \<and> click_status (test_element_click stale_session (link_info ''/about'')) = ''stale_element''"
  by code_simp

section \<open>The vocabulary of classifications\<close>

lemma classify_observed_status:
  "click_status (classify_observed sess info iu it cu ct result) \<in> classifications"
  by (simp add: click_status_classify_observed classifications_def)

lemma after_click_status:
  "after_click sess info iu it result = (None, r) \<Longrightarrow> click_status r \<in> classifications"
  by (auto simp: after_click_def classify_observed_status split: sum.splits)

lemma click_and_observe_status:
  "click_and_observe sess info iu it result = (None, r) \<Longrightarrow> click_status r \<in> classifications"
  by (auto simp: click_and_observe_def classifications_def split: sum.splits exn.splits
           dest: after_click_status)

lemma try_body_status:
  "try_body sess info located result = (None, r) \<Longrightarrow> click_status r \<in> classifications"
  by (auto simp: try_body_def Let_def classifications_def split: sum.splits option.splits if_splits
           dest: click_and_observe_status)

lemma test_element_click_status:
  "click_status (test_element_click sess info) \<in> classifications"
proof -
  obtain e r where b: "try_body sess info
           (if is_carousel_element info then find_and_prepare_carousel_element sess info
            else find_element_by_info (find_elements sess) info) (new_result info) = (e, r)"
    by (cases "try_body sess info
           (if is_carousel_element info then find_and_prepare_carousel_element sess info
            else find_element_by_info (find_elements sess) info) (new_result info)")
  show ?thesis
  proof (cases e)
    case None
    with b try_body_status [of sess info _ "new_result info" r] show ?thesis
      by (simp add: test_element_click_def Let_def)
  next
    case (Some x)
    with b show ?thesis
      by (cases x) (simp_all add: test_element_click_def Let_def classifications_def)
  qed
qed

lemma test_element_click_with_driver_status:
  "click_status (test_element_click_with_driver sess info) \<in> classifications"
proof -
  obtain e r where b: "try_body sess info (find_element_by_info_with_driver (find_elements sess) info)
             (new_result info) = (e, r)"
    by (cases "try_body sess info (find_element_by_info_with_driver (find_elements sess) info)
             (new_result info)")
  show ?thesis
  proof (cases e)
    case None
    with b try_body_status [of sess info _ "new_result info" r] show ?thesis
      by (simp add: test_element_click_with_driver_def)
  next
    case (Some x)
    with b show ?thesis
      by (simp add: test_element_click_with_driver_def classifications_def)
  qed
qed

lemma batch_error_not_listed: "''batch_error'' \<notin> classifications"
  by (simp add: classifications_def)

lemma test_one_in_batch_status:
  "click_status (test_one_in_batch u (info, step)) =
     (if driver_answered u step then click_status (test_element_click_with_driver (batch_session step) info)
      else ''batch_error'')"
  by (simp add: test_one_in_batch_def driver_answered_def batch_error_result_def split: sum.splits)

lemma test_element_batch_status:
  "r \<in> set (test_element_batch batch u) \<Longrightarrow> click_status r \<in> insert ''batch_error'' classifications"
proof (induction batch)
  case Nil
  then show ?case by simp
next
  case (Cons item batch)
  obtain info step where item: "item = (info, step)" by (cases item)
  from Cons show ?case
    using test_element_click_with_driver_status [of "batch_session step" info]
    by (auto simp: item test_one_in_batch_status)
qed

lemma test_each_status:
  "test_each u els tr = Inr tr' \<Longrightarrow> \<forall>r \<in> set (results tr). click_status r \<in> classifications \<Longrightarrow>
   r \<in> set (results tr') \<Longrightarrow> click_status r \<in> classifications"
proof (induction els arbitrary: tr)
  case Nil
  then show ?case by simp
next
  case (Cons a els)
  obtain info step where a: "a = (info, step)" by (cases a)
  let ?r = "test_element_click (seq_session step) info"
  let ?tr = "update_counters ?r (tr\<lparr>results := results tr @ [?r], elements_tested := elements_tested tr + 1\<rparr>)"
  from Cons.prems(1) have run: "test_each u els ?tr = Inr tr'"
    by (simp add: a Let_def split: sum.splits)
  have inv: "\<forall>r \<in> set (results ?tr). click_status r \<in> classifications"
    using Cons.prems(2) test_element_click_status [of "seq_session step" info]
    by (auto simp: update_counters_fields)
  show ?case by (rule Cons.IH [OF run inv Cons.prems(3)])
qed

lemma collect_batches_results:
  "r \<in> set (results (collect_batches os tr)) \<Longrightarrow>
   r \<in> set (results tr) \<or> (\<exists>rs. Inr rs \<in> set os \<and> r \<in> set rs)"
  by (induction os tr rule: collect_batches.induct) auto

text \<open>
  Claim C9, as amended. Every result of the sequential run carries one of the ten
  classifications, and so does every result the per-driver classifier returns. A result
  of the batch path carries one of the ten, or \<open>batch_error\<close>: that status is given exactly
  when the batch's own reads before the test (\<open>driver.current_url\<close>, \<open>driver.get(url)\<close>)
  raise. The same bound holds for the results a concurrent run aggregates.
\<close>

theorem classification_vocabulary:
  "(run_comprehensive_test u clickable_elements = Inr tr \<longrightarrow>
      (\<forall>r \<in> set (results tr). click_status r \<in> classifications))
   \<and> click_status (test_one_in_batch u (info, step)) =
       (if driver_answered u step
        then click_status (test_element_click_with_driver (batch_session step) info)
        else ''batch_error'')
   \<and> click_status (test_element_click_with_driver (batch_session step) info) \<in> classifications
   \<and> (\<forall>r \<in> set (test_element_batch batch u).
         click_status r \<in> insert ''batch_error'' classifications)
   \<and> (run_comprehensive_test_concurrent u batch_elements pool_size completed = Inr tr' \<longrightarrow>
      (\<forall>r \<in> set (results tr'). click_status r \<in> insert ''batch_error'' classifications))"
proof (intro conjI impI ballI)
  fix r
  assume "run_comprehensive_test u clickable_elements = Inr tr" and r: "r \<in> set (results tr)"
  then have run: "test_each u clickable_elements (new_test_results u (length clickable_elements)) = Inr tr"
    by (simp add: run_comprehensive_test_def split: sum.splits)
  show "click_status r \<in> classifications"
    by (rule test_each_status [OF run _ r]) (simp add: new_test_results_def)
next
  show "click_status (test_one_in_batch u (info, step)) =
       (if driver_answered u step
        then click_status (test_element_click_with_driver (batch_session step) info)
        else ''batch_error'')"
    by (rule test_one_in_batch_status)
next
  show "click_status (test_element_click_with_driver (batch_session step) info) \<in> classifications"
    by (rule test_element_click_with_driver_status)
next
  fix r assume "r \<in> set (test_element_batch batch u)"
  then show "click_status r \<in> insert ''batch_error'' classifications"
    by (rule test_element_batch_status)
next
  fix r
  assume run: "run_comprehensive_test_concurrent u batch_elements pool_size completed = Inr tr'"
    and r: "r \<in> set (results tr')"
  from run obtain batches where
    tr': "tr' = count_results
            (results (collect_batches
               (map (\<lambda>i. Inr (test_element_batch (batches ! i) u)) (filter (\<lambda>i. i < length batches) completed))
               (new_test_results u (length batch_elements))))
            (collect_batches
               (map (\<lambda>i. Inr (test_element_batch (batches ! i) u)) (filter (\<lambda>i. i < length batches) completed))
               (new_test_results u (length batch_elements)))"
    by (auto simp: run_comprehensive_test_concurrent_def Let_def split: if_splits sum.splits)
  from r have "r \<in> set (results (collect_batches
               (map (\<lambda>i. Inr (test_element_batch (batches ! i) u)) (filter (\<lambda>i. i < length batches) completed))
               (new_test_results u (length batch_elements))))"
    by (simp add: tr' count_results_fields)
  from collect_batches_results [OF this]
  obtain i where "r \<in> set (test_element_batch (batches ! i) u)"
    by (auto simp: new_test_results_def)
  then show "click_status r \<in> insert ''batch_error'' classifications"
    by (rule test_element_batch_status)
qed

text \<open>
  Claim C9 as stated fails on the batch path: when the batch's driver no longer answers
  \<open>current_url\<close>, the result appended for the element has the status \<open>batch_error\<close>, which
  is none of the ten.
\<close>

theorem batch_error_counterexample:
  "map click_status (test_element_batch [(link_info ''/about'', lost_driver_step)] ''http://site/'')
     = [''batch_error'']
   \<and> ''batch_error'' \<notin> classifications"
  by code_simp

theorem classification_vocabulary_witness:
  "(\<exists>tr. run_comprehensive_test ''http://site/''
            [(link_info ''/about'', seq_step_of navigating_session),
             (link_info ''/x'', seq_step_of timing_out_session)] = Inr tr
         \<and> (\<forall>r \<in> set (results tr). click_status r \<in> classifications)
         \<and> map click_status (results tr) = [''active_navigation'', ''timeout''])
   \<and> \<not> driver_answered ''http://site/'' lost_driver_step
   \<and> click_status (test_one_in_batch ''http://site/'' (link_info ''/about'', lost_driver_step)) = ''batch_error''
   \<and> map click_status (test_element_batch [(link_info ''/about'', batch_step_of navigating_session),
                                             (link_info ''/x'', lost_driver_step)] ''http://site/'')
       = [''active_navigation'', ''batch_error'']
   \<and> set (map click_status (test_element_batch [(link_info ''/about'', batch_step_of navigating_session),
                                             (link_info ''/x'', lost_driver_step)] ''http://site/''))
       \<subseteq> insert ''batch_error'' classifications"
proof -
  let ?seq = "run_comprehensive_test ''http://site/''
            [(link_info ''/about'', seq_step_of navigating_session),
             (link_info ''/x'', seq_step_of timing_out_session)]"
  have "case ?seq of Inl e \<Rightarrow> False
        | Inr tr \<Rightarrow> map click_status (results tr) = [''active_navigation'', ''timeout'']"
    by code_simp
  then obtain tr where tr: "?seq = Inr tr"
      "map click_status (results tr) = [''active_navigation'', ''timeout'']"
    by (auto split: sum.splits)
  have na: "\<not> driver_answered ''http://site/'' lost_driver_step"
    by (simp add: driver_answered_def lost_driver_step_def)
  note v = classification_vocabulary [of "''http://site/''" _ tr "link_info ''/about''" lost_driver_step
      "[(link_info ''/about'', batch_step_of navigating_session), (link_info ''/x'', lost_driver_step)]"
      "[]" 1 "[]"]
  from v tr(1) have a: "\<forall>r \<in> set (results tr). click_status r \<in> classifications" by blast
  from v na have b: "click_status (test_one_in_batch ''http://site/'' (link_info ''/about'', lost_driver_step))
      = ''batch_error''" by simp
  from v have c: "\<forall>r \<in> set (test_element_batch [(link_info ''/about'', batch_step_of navigating_session),
                                        (link_info ''/x'', lost_driver_step)] ''http://site/'').
         click_status r \<in> insert ''batch_error'' classifications" by blast
  have s: "\<exists>tr. ?seq = Inr tr
         \<and> (\<forall>r \<in> set (results tr). click_status r \<in> classifications)
         \<and> map click_status (results tr) = [''active_navigation'', ''timeout'']"
    using tr a by (intro exI [of _ tr]) simp
  have d: "map click_status (test_element_batch [(link_info ''/about'', batch_step_of navigating_session),
                                             (link_info ''/x'', lost_driver_step)] ''http://site/'')
       = [''active_navigation'', ''batch_error'']"
    by code_simp
  from c have e: "set (map click_status (test_element_batch
        [(link_info ''/about'', batch_step_of navigating_session),
         (link_info ''/x'', lost_driver_step)] ''http://site/''))
       \<subseteq> insert ''batch_error'' classifications"
    by auto
  show ?thesis
    using s na b d e by (intro conjI)
qed

section \<open>The locator's strategies\<close>

lemma first_accepted_Some_iff:
  "first_accepted ok els = Inr (Some el) \<longleftrightarrow>
     (\<exists>pre post. els = pre @ el # post \<and> ok el = Inr True \<and> (\<forall>x \<in> set pre. ok x = Inr False))"
proof (induction els)
  case Nil
  then show ?case by simp
next
  case (Cons a els)
  show ?case
  proof (cases "ok a")
    case (Inl e)
    then show ?thesis by (auto simp: Cons_eq_append_conv)
  next
    case (Inr b)
    show ?thesis
    proof (cases b)
      case True
      with Inr show ?thesis
        by (auto simp: Cons_eq_append_conv intro: exI [of _ "[]"])
    next
      case False
      with Inr Cons.IH show ?thesis
        apply (simp add: Cons_eq_append_conv)
        by (metis (no_types, opaque_lifting) Inr_inject set_ConsD list.set_intros(2))
    qed
  qed
qed

lemma candidate_matches_True_iff:
  "candidate_matches info el = Inr True \<longleftrightarrow>
     we_is_displayed el = Inr True \<and> we_tag_name el = Inr (tag_name info)
     \<and> (\<exists>x. we_text el = Inr x \<and> take 100 (strip x) = text' info)"
  by (auto simp: candidate_matches_def split: sum.splits if_splits)

lemma strategy_outcome_simps:
  "strategy_outcome lk ok None = None"
  "strategy_outcome lk ok (Some (b, v)) =
     (case lk b v of Inl e \<Rightarrow> None
      | Inr els \<Rightarrow> (case first_accepted ok els of Inl e \<Rightarrow> None | Inr r \<Rightarrow> r))"
  by (auto simp: strategy_outcome_def split: sum.splits option.splits)

lemma try_strategies_Cons:
  "try_strategies lk ok (s # rest) =
     (case strategy_outcome lk ok s of Some el \<Rightarrow> Some el | None \<Rightarrow> try_strategies lk ok rest)"
  by (cases s) (auto simp: strategy_outcome_def split: sum.splits option.splits)

lemma try_strategies_Some_iff:
  "try_strategies lk ok ss = Some el \<longleftrightarrow>
     (\<exists>pre s post. ss = pre @ s # post \<and> strategy_outcome lk ok s = Some el
        \<and> (\<forall>t \<in> set pre. strategy_outcome lk ok t = None))"
proof (induction ss)
  case Nil
  then show ?case by simp
next
  case (Cons a ss)
  show ?case
  proof (cases "strategy_outcome lk ok a")
    case None
    have "(\<exists>pre s post. a # ss = pre @ s # post \<and> strategy_outcome lk ok s = Some el
              \<and> (\<forall>t \<in> set pre. strategy_outcome lk ok t = None))
        \<longleftrightarrow> (\<exists>pre s post. ss = pre @ s # post \<and> strategy_outcome lk ok s = Some el
              \<and> (\<forall>t \<in> set pre. strategy_outcome lk ok t = None))" (is "?L \<longleftrightarrow> ?R")
    proof
      assume ?L
      then obtain pre s post where h: "a # ss = pre @ s # post" "strategy_outcome lk ok s = Some el"
        "\<forall>t \<in> set pre. strategy_outcome lk ok t = None" by blast
      show ?R
      proof (cases pre)
        case Nil
        with h None show ?thesis by simp
      next
        case (Cons p pre')
        with h have "ss = pre' @ s # post" "\<forall>t \<in> set pre'. strategy_outcome lk ok t = None" by simp_all
        with h(2) show ?thesis by blast
      qed
    next
      assume ?R
      then obtain pre s post where h: "ss = pre @ s # post" "strategy_outcome lk ok s = Some el"
        "\<forall>t \<in> set pre. strategy_outcome lk ok t = None" by blast
      then have "a # ss = (a # pre) @ s # post" "\<forall>t \<in> set (a # pre). strategy_outcome lk ok t = None"
        using None by simp_all
      with h(2) show ?L by blast
    qed
    with None Cons.IH show ?thesis by (simp add: try_strategies_Cons)
  next
    case (Some x)
    have "(\<exists>pre s post. a # ss = pre @ s # post \<and> strategy_outcome lk ok s = Some el
              \<and> (\<forall>t \<in> set pre. strategy_outcome lk ok t = None)) \<longleftrightarrow> x = el" (is "?L \<longleftrightarrow> _")
    proof
      assume ?L
      then obtain pre s post where h: "a # ss = pre @ s # post" "strategy_outcome lk ok s = Some el"
        "\<forall>t \<in> set pre. strategy_outcome lk ok t = None" by blast
      show "x = el"
      proof (cases pre)
        case Nil
        with h Some show ?thesis by simp
      next
        case (Cons p pre')
        with h Some show ?thesis by simp
      qed
    next
      assume "x = el"
      with Some have "a # ss = [] @ a # ss" "strategy_outcome lk ok a = Some el" by simp_all
      then show ?L by (metis empty_iff list.set(1))
    qed
    with Some show ?thesis by (simp add: try_strategies_Cons)
  qed
qed

lemma try_strategies_None_iff:
  "try_strategies lk ok ss = None \<longleftrightarrow> (\<forall>s \<in> set ss. strategy_outcome lk ok s = None)"
  by (induction ss) (auto simp: try_strategies_Cons split: option.splits)

lemma try_body_not_found:
  assumes "first_current_url sess = Inr u" and "first_title sess = Inr t"
  shows "try_body sess info None result =
           (None, result\<lparr>url_before := u, click_status := ''element_not_found'',
                          error_message := ''Element could not be located for clicking''\<rparr>)"
  using assms by (simp add: try_body_def Let_def)

text \<open>
  Claim C8, as amended. The strategies are, in this order, the lookup by id, by the
  generated path and by the class selector (the classes joined with dots), each left out
  when the descriptor has nothing for it. The locator returns the outcome of the first
  strategy that has one. A strategy's outcome is the first candidate of its lookup that
  is accepted, all candidates before it having been rejected without a read raising; a
  candidate is accepted when it is displayed and its tag name and its stripped text, cut
  to 100 characters, equal the descriptor's. A strategy whose lookup or whose read of a
  candidate raises has no outcome. When no strategy has an outcome the locator returns
  \<open>None\<close>, and both classifiers then report \<open>element_not_found\<close>.
\<close>

theorem locator_strategy_order:
  "strategies info =
     [if ident info \<noteq> [] then Some (By_ID, ident info) else None,
      if xpath info \<noteq> ''xpath_unavailable'' then Some (By_XPATH, xpath info) else None,
      if class_names info \<noteq> []
      then Some (By_CSS_SELECTOR, ''.'' @ spaces_to_dots (class_names info)) else None]
   \<and> (find_element_by_info lk info = Some el \<longleftrightarrow>
        (\<exists>pre s post. strategies info = pre @ s # post
           \<and> strategy_outcome lk (candidate_matches info) s = Some el
           \<and> (\<forall>t \<in> set pre. strategy_outcome lk (candidate_matches info) t = None)))
   \<and> (strategy_outcome lk (candidate_matches info) (Some (b, v)) = Some el \<longleftrightarrow>
        (\<exists>pre post. lk b v = Inr (pre @ el # post)
           \<and> candidate_matches info el = Inr True
           \<and> (\<forall>x \<in> set pre. candidate_matches info x = Inr False)))
   \<and> (candidate_matches info el = Inr True \<longleftrightarrow>
        we_is_displayed el = Inr True \<and> we_tag_name el = Inr (tag_name info)
        \<and> (\<exists>x. we_text el = Inr x \<and> take 100 (strip x) = text' info))
   \<and> strategy_outcome lk (candidate_matches info) None = None
   \<and> (lk b v = Inl e \<longrightarrow> strategy_outcome lk (candidate_matches info) (Some (b, v)) = None)
   \<and> (lk b v = Inr els \<and> first_accepted (candidate_matches info) els = Inl e \<longrightarrow>
        strategy_outcome lk (candidate_matches info) (Some (b, v)) = None)
   \<and> (find_element_by_info lk info = None \<longleftrightarrow>
        (\<forall>s \<in> set (strategies info). strategy_outcome lk (candidate_matches info) s = None))
   \<and> (first_current_url sess = Inr u \<and> first_title sess = Inr t
        \<and> \<not> is_carousel_element info \<and> find_element_by_info (find_elements sess) info = None \<longrightarrow>
        click_status (test_element_click sess info) = ''element_not_found'')
   \<and> (first_current_url sess = Inr u \<and> first_title sess = Inr t
        \<and> find_element_by_info_with_driver (find_elements sess) info = None \<longrightarrow>
        click_status (test_element_click_with_driver sess info) = ''element_not_found'')"
proof (intro conjI)
  show "strategies info =
     [if ident info \<noteq> [] then Some (By_ID, ident info) else None,
      if xpath info \<noteq> ''xpath_unavailable'' then Some (By_XPATH, xpath info) else None,
      if class_names info \<noteq> []
      then Some (By_CSS_SELECTOR, ''.'' @ spaces_to_dots (class_names info)) else None]"
    by (simp add: strategies_def)
  show "find_element_by_info lk info = Some el \<longleftrightarrow>
        (\<exists>pre s post. strategies info = pre @ s # post
           \<and> strategy_outcome lk (candidate_matches info) s = Some el
           \<and> (\<forall>t \<in> set pre. strategy_outcome lk (candidate_matches info) t = None))"
    unfolding find_element_by_info_def by (rule try_strategies_Some_iff)
  show "strategy_outcome lk (candidate_matches info) (Some (b, v)) = Some el \<longleftrightarrow>
        (\<exists>pre post. lk b v = Inr (pre @ el # post)
           \<and> candidate_matches info el = Inr True
           \<and> (\<forall>x \<in> set pre. candidate_matches info x = Inr False))"
  proof (cases "lk b v")
    case (Inl e)
    then show ?thesis by (simp add: strategy_outcome_simps)
  next
    case (Inr els)
    have "strategy_outcome lk (candidate_matches info) (Some (b, v)) = Some el
          \<longleftrightarrow> first_accepted (candidate_matches info) els = Inr (Some el)"
      using Inr by (auto simp: strategy_outcome_simps split: sum.splits)
    then show ?thesis
      using Inr by (simp add: first_accepted_Some_iff)
  qed
  show "candidate_matches info el = Inr True \<longleftrightarrow>
        we_is_displayed el = Inr True \<and> we_tag_name el = Inr (tag_name info)
        \<and> (\<exists>x. we_text el = Inr x \<and> take 100 (strip x) = text' info)"
    by (rule candidate_matches_True_iff)
  show "strategy_outcome lk (candidate_matches info) None = None"
    by (simp add: strategy_outcome_simps)
  show "lk b v = Inl e \<longrightarrow> strategy_outcome lk (candidate_matches info) (Some (b, v)) = None"
    by (simp add: strategy_outcome_simps)
  show "lk b v = Inr els \<and> first_accepted (candidate_matches info) els = Inl e \<longrightarrow>
        strategy_outcome lk (candidate_matches info) (Some (b, v)) = None"
    by (simp add: strategy_outcome_simps)
  show "find_element_by_info lk info = None \<longleftrightarrow>
        (\<forall>s \<in> set (strategies info). strategy_outcome lk (candidate_matches info) s = None)"
    unfolding find_element_by_info_def by (rule try_strategies_None_iff)
  show "first_current_url sess = Inr u \<and> first_title sess = Inr t
        \<and> \<not> is_carousel_element info \<and> find_element_by_info (find_elements sess) info = None \<longrightarrow>
        click_status (test_element_click sess info) = ''element_not_found''"
    by (auto simp: test_element_click_def try_body_not_found)
  show "first_current_url sess = Inr u \<and> first_title sess = Inr t
        \<and> find_element_by_info_with_driver (find_elements sess) info = None \<longrightarrow>
        click_status (test_element_click_with_driver sess info) = ''element_not_found''"
    by (auto simp: test_element_click_with_driver_def try_body_not_found)
qed

text \<open>
  Claim C8 as stated fails: the first candidate whose tag name and text match the
  descriptor is passed over when it is not displayed, and a later one is returned.
\<close>

theorem hidden_candidate_counterexample:
  "sample_lookup By_XPATH (xpath button_info) = Inr [anchor 1 False, anchor 2 True]
   \<and> candidate_matches_in_container button_info (anchor 1 False) = Inr True
   \<and> find_element_by_info sample_lookup button_info = Some (anchor 2 True)
   \<and> handle (anchor 2 True) \<noteq> handle (anchor 1 False)"
  by code_simp

theorem locator_strategy_order_witness:
  "find_element_by_info sample_lookup button_info = Some (anchor 2 True)
   \<and> strategies button_info =
       [Some (By_ID, ''go''), Some (By_XPATH, ''/html/body/a[1]''), Some (By_CSS_SELECTOR, ''.btn.wide'')]
   \<and> strategy_outcome sample_lookup (candidate_matches button_info) (Some (By_ID, ''go'')) = None
   \<and> strategy_outcome sample_lookup (candidate_matches button_info) (Some (By_XPATH, ''/html/body/a[1]''))
        = Some (anchor 2 True)
   \<and> strategy_outcome sample_lookup (candidate_matches button_info) (Some (By_CSS_SELECTOR, ''.btn.wide''))
        = None
   \<and> find_element_by_info (\<lambda>b v. Inr []) button_info = None
   \<and> click_status (test_element_click (quiet_session\<lparr>find_elements := (\<lambda>b v. Inr [])\<rparr>) button_info)
        = ''element_not_found''
   \<and> click_status (test_element_click_with_driver (quiet_session\<lparr>find_elements := (\<lambda>b v. Inr [])\<rparr>)
        button_info) = ''element_not_found''"
proof -
  let ?ok = "candidate_matches button_info"
  let ?empty = "quiet_session\<lparr>find_elements := (\<lambda>b v. Inr [])\<rparr>"
  note found_iff = locator_strategy_order [THEN conjunct2, THEN conjunct1]
  note outcome_iff = locator_strategy_order [THEN conjunct2, THEN conjunct2, THEN conjunct1]
  note raised = locator_strategy_order [THEN conjunct2, THEN conjunct2, THEN conjunct2,
      THEN conjunct2, THEN conjunct2, THEN conjunct1, rule_format]
  note none_iff = locator_strategy_order [THEN conjunct2, THEN conjunct2, THEN conjunct2,
      THEN conjunct2, THEN conjunct2, THEN conjunct2, THEN conjunct2, THEN conjunct1]
  note seq_nf = locator_strategy_order [THEN conjunct2, THEN conjunct2, THEN conjunct2,
      THEN conjunct2, THEN conjunct2, THEN conjunct2, THEN conjunct2, THEN conjunct2,
      THEN conjunct1, rule_format]
  note con_nf = locator_strategy_order [THEN conjunct2, THEN conjunct2, THEN conjunct2,
      THEN conjunct2, THEN conjunct2, THEN conjunct2, THEN conjunct2, THEN conjunct2,
      THEN conjunct2, rule_format]
  have st: "strategies button_info =
       [Some (By_ID, ''go''), Some (By_XPATH, ''/html/body/a[1]''), Some (By_CSS_SELECTOR, ''.btn.wide'')]"
    by code_simp
  have o1: "strategy_outcome sample_lookup ?ok (Some (By_ID, ''go'')) = None"
  proof (cases "strategy_outcome sample_lookup ?ok (Some (By_ID, ''go''))")
    case None
    then show ?thesis .
  next
    case (Some el)
    with outcome_iff [of sample_lookup button_info By_ID "''go''" el]
    show ?thesis by (simp add: sample_lookup_def)
  qed
  have ok2: "candidate_matches button_info (anchor 2 True) = Inr True"
    "candidate_matches button_info (anchor 1 False) = Inr False"
    by code_simp+
  have "\<exists>pre post. sample_lookup By_XPATH ''/html/body/a[1]'' = Inr (pre @ anchor 2 True # post)
           \<and> candidate_matches button_info (anchor 2 True) = Inr True
           \<and> (\<forall>x \<in> set pre. candidate_matches button_info x = Inr False)"
    using ok2 by (intro exI [of _ "[anchor 1 False]"] exI [of _ "[]"]) (simp add: sample_lookup_def)
  with outcome_iff [of sample_lookup button_info By_XPATH "''/html/body/a[1]''" "anchor 2 True"]
  have o2: "strategy_outcome sample_lookup ?ok (Some (By_XPATH, ''/html/body/a[1]'')) = Some (anchor 2 True)"
    by (rule iffD2)
  have o3: "strategy_outcome sample_lookup ?ok (Some (By_CSS_SELECTOR, ''.btn.wide'')) = None"
    by (rule raised [of sample_lookup By_CSS_SELECTOR "''.btn.wide''" "OtherException ''invalid selector''"])
       (simp add: sample_lookup_def)
  have "\<exists>pre s post. strategies button_info = pre @ s # post
           \<and> strategy_outcome sample_lookup ?ok s = Some (anchor 2 True)
           \<and> (\<forall>t \<in> set pre. strategy_outcome sample_lookup ?ok t = None)"
    using o1 o2 st
    by (intro exI [of _ "[Some (By_ID, ''go'')]"] exI [of _ "Some (By_XPATH, ''/html/body/a[1]'')"]
          exI [of _ "[Some (By_CSS_SELECTOR, ''.btn.wide'')]"]) simp
  with found_iff [of sample_lookup button_info "anchor 2 True"]
  have f: "find_element_by_info sample_lookup button_info = Some (anchor 2 True)"
    by (rule iffD2)
  have none: "strategy_outcome (\<lambda>b v. Inr []) ?ok s = None" for s
    by (cases s) (auto simp: strategy_outcome_def)
  with none_iff [of "\<lambda>b v. Inr []" button_info]
  have n: "find_element_by_info (\<lambda>b v. Inr []) button_info = None"
    by simp
  have pre: "first_current_url ?empty = Inr ''http://site/''" "first_title ?empty = Inr ''Home''"
    "\<not> is_carousel_element button_info" "find_elements ?empty = (\<lambda>b v. Inr [])"
    by (simp_all add: quiet_session_def button_info_def link_info_def)
  have n': "find_element_by_info_with_driver (\<lambda>b v. Inr []) button_info = None"
    using n by (simp add: find_element_by_info_with_driver_def find_element_by_info_def)
  have e1: "click_status (test_element_click ?empty button_info) = ''element_not_found''"
    by (rule seq_nf [of ?empty "''http://site/''" "''Home''"]) (simp add: pre n)
  have e2: "click_status (test_element_click_with_driver ?empty button_info) = ''element_not_found''"
    by (rule con_nf [of ?empty "''http://site/''" "''Home''"]) (simp add: pre n')
  show ?thesis
    using f st o1 o2 o3 n e1 e2 by (intro conjI)
qed

section \<open>Discovery: the sweeps as one pass\<close>

lemma extract_Some:
  assumes "extract_element_info H seen el = (Some info, seen')"
  shows "unique_id info = Md5 (fingerprint H el)" and "fingerprint H el \<notin> seen"
    and "seen' = insert (fingerprint H el) seen" and "detection_method info = None"
    and "\<not> is_carousel_element info" and "describes info el" and "dom_fault el = NoFault"
  using assms
  by (cases "dom_fault el"; auto simp: extract_element_info_def Let_def describes_def split: if_splits)+

lemma extract_None:
  assumes "extract_element_info H seen el = (None, seen')"
  shows "seen \<subseteq> seen'" and "seen' \<subseteq> insert (fingerprint H el) seen"
    and "dom_fault el \<noteq> FaultBeforeDedup \<Longrightarrow> fingerprint H el \<in> seen'"
  using assms
  by (auto simp: extract_element_info_def Let_def split: if_splits)


lemma extract_new:
  "fingerprint H el \<notin> seen \<Longrightarrow> dom_fault el = NoFault \<Longrightarrow>
   \<exists>info. extract_element_info H seen el = (Some info, insert (fingerprint H el) seen)"
  by (simp add: extract_element_info_def Let_def)

lemma structural_sweep_admit_each:
  assumes "\<forall>s. Md5 s \<in> uids \<longrightarrow> s \<in> seen"
  shows "\<exists>uids'. structural_sweep H els (seen, uids, out)
           = (snd (admit_each H (map (Pair None) els) seen), uids',
              out @ fst (admit_each H (map (Pair None) els) seen))
         \<and> (\<forall>s. Md5 s \<in> uids' \<longrightarrow> s \<in> snd (admit_each H (map (Pair None) els) seen))"
  using assms
proof (induction els arbitrary: seen uids out)
  case Nil
  then show ?case by simp
next
  case (Cons el els)
  show ?case
  proof (cases "admissible el")
    case False
    with Cons.IH [OF Cons.prems, of out] show ?thesis by simp
  next
    case True
    obtain r seen' where ex: "extract_element_info H seen el = (r, seen')"
      by (cases "extract_element_info H seen el")
    show ?thesis
    proof (cases r)
      case None
      from extract_None(1) [OF ex [unfolded None]] Cons.prems
      have inv: "\<forall>s. Md5 s \<in> uids \<longrightarrow> s \<in> seen'" by blast
      from Cons.IH [OF inv, of out] True ex None show ?thesis by simp
    next
      case (Some info)
      note f = extract_Some [OF ex [unfolded Some]]
      from f(1,2) Cons.prems have new: "unique_id info \<notin> uids" by auto
      from f(1,3) Cons.prems
      have inv: "\<forall>s. Md5 s \<in> insert (unique_id info) uids \<longrightarrow> s \<in> seen'" by auto
      have same: "info\<lparr>detection_method := None\<rparr> = info"
        using f(4) by simp
      from Cons.IH [OF inv, of "out @ [info]"] True ex Some new same
      show ?thesis by (simp add: split_beta)
    qed
  qed
qed

lemma tagged_sweep_admit_each:
  "tagged_sweep H m els seen = admit_each H (map (Pair (Some m)) els) seen"
  by (induction els arbitrary: seen) (auto split: prod.splits option.splits)

lemma tagged_sweep_seq_admit_each:
  assumes "\<forall>s. Md5 s \<in> uids \<longrightarrow> s \<in> seen"
  shows "\<exists>uids'. tagged_sweep_seq H m els (seen, uids, out)
           = (snd (admit_each H (map (Pair (Some m)) els) seen), uids',
              out @ fst (admit_each H (map (Pair (Some m)) els) seen))
         \<and> (\<forall>s. Md5 s \<in> uids' \<longrightarrow> s \<in> snd (admit_each H (map (Pair (Some m)) els) seen))"
  using assms
proof (induction els arbitrary: seen uids out)
  case Nil
  then show ?case by simp
next
  case (Cons el els)
  show ?case
  proof (cases "admissible el")
    case False
    with Cons.IH [OF Cons.prems, of out] show ?thesis by simp
  next
    case True
    obtain r seen' where ex: "extract_element_info H seen el = (r, seen')"
      by (cases "extract_element_info H seen el")
    show ?thesis
    proof (cases r)
      case None
      from extract_None(1) [OF ex [unfolded None]] Cons.prems
      have inv: "\<forall>s. Md5 s \<in> uids \<longrightarrow> s \<in> seen'" by blast
      from Cons.IH [OF inv, of out] True ex None show ?thesis by simp
    next
      case (Some info)
      note f = extract_Some [OF ex [unfolded Some]]
      from f(1,2) Cons.prems have new: "unique_id info \<notin> uids" by auto
      from f(1,3) Cons.prems
      have inv: "\<forall>s. Md5 s \<in> insert (unique_id info) uids \<longrightarrow> s \<in> seen'" by auto
      from Cons.IH [OF inv, of "out @ [info\<lparr>detection_method := Some m\<rparr>]"] True ex Some new
      show ?thesis by (simp add: split_beta)
    qed
  qed
qed

lemma admit_each_append:
  "admit_each H (xs @ ys) seen =
     (fst (admit_each H xs seen) @ fst (admit_each H ys (snd (admit_each H xs seen))),
      snd (admit_each H ys (snd (admit_each H xs seen))))"
  by (induction xs arbitrary: seen) (auto split: prod.splits option.splits)

lemma find_regular_clickables_admit_each:
  "find_regular_clickables H p seen = admit_each H (sweep_order p) seen"
proof -
  from structural_sweep_admit_each [of "{}" seen H "structural_hits p" "[]"]
  obtain uids' where s: "structural_sweep H (structural_hits p) (seen, {}, [])
       = (snd (admit_each H (map (Pair None) (structural_hits p)) seen), uids',
          fst (admit_each H (map (Pair None) (structural_hits p)) seen))"
    by auto
  show ?thesis
    by (simp add: find_regular_clickables_def s find_elements_by_pointer_cursor_def
          find_elements_by_event_listeners_def tagged_sweep_admit_each sweep_order_def
          admit_each_append split_beta)
qed

lemma carousel_sweep_seq: "carousel_sweep (extract_element_info_for_hidden_seq H) els = []"
  by (induction els) (simp_all add: extract_element_info_for_hidden_seq_def)

lemma find_clickable_elements_seq_admit_each:
  "find_clickable_elements_seq H p seen = admit_each H (sweep_order p) seen"
proof -
  from structural_sweep_admit_each [of "{}" seen H "structural_hits p" "[]"]
  obtain u1 where s: "structural_sweep H (structural_hits p) (seen, {}, [])
       = (snd (admit_each H (map (Pair None) (structural_hits p)) seen), u1,
          fst (admit_each H (map (Pair None) (structural_hits p)) seen))"
    and i1: "\<forall>s. Md5 s \<in> u1 \<longrightarrow> s \<in> snd (admit_each H (map (Pair None) (structural_hits p)) seen)"
    by auto
  let ?s1 = "snd (admit_each H (map (Pair None) (structural_hits p)) seen)"
  let ?o1 = "fst (admit_each H (map (Pair None) (structural_hits p)) seen)"
  from tagged_sweep_seq_admit_each [OF i1, of H "''pointer_cursor''" "pointer_hits p" ?o1]
  obtain u2 where t: "tagged_sweep_seq H ''pointer_cursor'' (pointer_hits p) (?s1, u1, ?o1)
       = (snd (admit_each H (map (Pair (Some ''pointer_cursor'')) (pointer_hits p)) ?s1), u2,
          ?o1 @ fst (admit_each H (map (Pair (Some ''pointer_cursor'')) (pointer_hits p)) ?s1))"
    and i2: "\<forall>s. Md5 s \<in> u2 \<longrightarrow> s \<in> snd (admit_each H (map (Pair (Some ''pointer_cursor'')) (pointer_hits p)) ?s1)"
    by auto
  let ?s2 = "snd (admit_each H (map (Pair (Some ''pointer_cursor'')) (pointer_hits p)) ?s1)"
  let ?o2 = "?o1 @ fst (admit_each H (map (Pair (Some ''pointer_cursor'')) (pointer_hits p)) ?s1)"
  from tagged_sweep_seq_admit_each [OF i2, of H "''event_listener''" "listener_hits p" ?o2]
  obtain u3 where l: "tagged_sweep_seq H ''event_listener'' (listener_hits p) (?s2, u2, ?o2)
       = (snd (admit_each H (map (Pair (Some ''event_listener'')) (listener_hits p)) ?s2), u3,
          ?o2 @ fst (admit_each H (map (Pair (Some ''event_listener'')) (listener_hits p)) ?s2))"
    by auto
  show ?thesis
    by (simp add: find_clickable_elements_seq_def carousel_sweep_seq s t l sweep_order_def
          admit_each_append)
qed

lemma admit_each_mono: "seen \<subseteq> snd (admit_each H xs seen)"
proof (induction xs arbitrary: seen)
  case Nil
  then show ?case by simp
next
  case (Cons a xs)
  obtain m el where a: "a = (m, el)" by (cases a)
  show ?case
  proof (cases "admissible el")
    case False
    with Cons.IH [of seen] show ?thesis by (simp add: a)
  next
    case True
    obtain r seen' where ex: "extract_element_info H seen el = (r, seen')"
      by (cases "extract_element_info H seen el")
    have "seen \<subseteq> seen'"
      using ex extract_Some(3) [of H seen el _ seen'] extract_None(1) [of H seen el seen']
      by (cases r) auto
    with Cons.IH [of seen'] True ex show ?thesis
      by (cases r) (auto simp: a split_beta)
  qed
qed

lemma admit_each_records:
  "(m, el) \<in> set xs \<Longrightarrow> admissible el \<Longrightarrow> dom_fault el \<noteq> FaultBeforeDedup \<Longrightarrow>
   fingerprint H el \<in> snd (admit_each H xs seen)"
proof (induction xs arbitrary: seen)
  case Nil
  then show ?case by simp
next
  case (Cons a xs)
  obtain m' el' where a: "a = (m', el')" by (cases a)
  obtain r seen' where ex: "extract_element_info H seen el' = (r, seen')"
    by (cases "extract_element_info H seen el'")
  have step: "snd (admit_each H (a # xs) seen)
      = snd (admit_each H xs (if admissible el' then seen' else seen))"
    using ex by (cases r) (simp_all add: a split_beta)
  show ?case
  proof (cases "(m, el) \<in> set xs")
    case True
    from Cons.IH [OF True Cons.prems(2,3)] show ?thesis unfolding step .
  next
    case False
    with Cons.prems(1) have eq: "el' = el" by (simp add: a)
    have "fingerprint H el \<in> seen'"
      using ex extract_Some(3) [of H seen el' _ seen'] extract_None(3) [of H seen el' seen']
        Cons.prems(3)
      by (cases r) (auto simp: eq)
    then have "fingerprint H el \<in> snd (admit_each H xs seen')"
      using admit_each_mono [of seen' H xs] by blast
    then show ?thesis unfolding step using Cons.prems(2) eq by simp
  qed
qed

lemma admit_each_nothing_new:
  "\<forall>(m, el) \<in> set xs. admissible el \<longrightarrow> dom_fault el = FaultBeforeDedup \<or> fingerprint H el \<in> seen \<Longrightarrow>
   admit_each H xs seen = ([], seen)"
proof (induction xs)
  case Nil
  then show ?case by simp
next
  case (Cons a xs)
  obtain m el where a: "a = (m, el)" by (cases a)
  from Cons.prems have rest: "\<forall>(m, el) \<in> set xs. admissible el \<longrightarrow>
      dom_fault el = FaultBeforeDedup \<or> fingerprint H el \<in> seen" by simp
  from Cons.prems have "admissible el \<Longrightarrow> extract_element_info H seen el = (None, seen)"
    by (auto simp: a extract_element_info_def Let_def)
  with Cons.IH [OF rest] show ?case by (simp add: a)
qed

lemma admit_each_again:
  "admit_each H xs (snd (admit_each H xs seen)) = ([], snd (admit_each H xs seen))"
  by (rule admit_each_nothing_new) (auto intro: admit_each_records)




lemma admit_each_bound:
  "f \<in> snd (admit_each H xs seen) \<Longrightarrow> f \<in> seen \<or> (\<exists>(m, el) \<in> set xs. fingerprint H el = f)"
proof (induction xs arbitrary: seen)
  case Nil
  then show ?case by simp
next
  case (Cons a xs)
  obtain m el where a: "a = (m, el)" by (cases a)
  obtain r seen' where ex: "extract_element_info H seen el = (r, seen')"
    by (cases "extract_element_info H seen el")
  have sub: "seen' \<subseteq> insert (fingerprint H el) seen"
    using ex extract_Some(3) [of H seen el _ seen'] extract_None(2) [of H seen el seen']
    by (cases r) auto
  have "f \<in> snd (admit_each H xs (if admissible el then seen' else seen))"
    using Cons.prems ex by (cases r; cases "admissible el") (simp_all add: a split_beta)
  from Cons.IH [OF this] sub show ?case
    by (auto simp: a split: if_splits)
qed

lemma admit_each_fresh:
  "d \<in> set (fst (admit_each H xs seen)) \<Longrightarrow>
   \<not> is_carousel_element d \<and> (\<exists>f. unique_id d = Md5 f \<and> f \<notin> seen)"
proof (induction xs arbitrary: seen)
  case Nil
  then show ?case by simp
next
  case (Cons a xs)
  obtain m el where a: "a = (m, el)" by (cases a)
  show ?case
  proof (cases "admissible el")
    case False
    with Cons show ?thesis by (simp add: a)
  next
    case True
    obtain r seen' where ex: "extract_element_info H seen el = (r, seen')"
      by (cases "extract_element_info H seen el")
    show ?thesis
    proof (cases r)
      case None
      from extract_None(1) [OF ex [unfolded None]] Cons.IH [of seen'] Cons.prems True ex None
      show ?thesis by (auto simp: a)
    next
      case (Some info)
      note f = extract_Some [OF ex [unfolded Some]]
      from Cons.prems True ex Some
      have "d = info\<lparr>detection_method := m\<rparr> \<or> d \<in> set (fst (admit_each H xs seen'))"
        by (auto simp: a split_beta)
      then show ?thesis
      proof
        assume "d = info\<lparr>detection_method := m\<rparr>"
        with f show ?thesis by simp
      next
        assume "d \<in> set (fst (admit_each H xs seen'))"
        from Cons.IH [OF this] f(3) show ?thesis by auto
      qed
    qed
  qed
qed


lemma admit_each_first_kept:
  assumes "admissible e1" and "dom_fault e1 = NoFault"
    and "fingerprint H e1 \<notin> seen"
    and "\<forall>(m, el) \<in> set pre. fingerprint H el \<noteq> fingerprint H e1"
  shows "\<exists>d \<in> set (fst (admit_each H (pre @ (m1, e1) # rest) seen)).
           unique_id d = Md5 (fingerprint H e1) \<and> detection_method d = m1 \<and> describes d e1"
proof -
  let ?s = "snd (admit_each H pre seen)"
  have "fingerprint H e1 \<notin> ?s"
    using admit_each_bound [of "fingerprint H e1" H pre seen] assms(3,4) by auto
  from extract_new [OF this assms(2)]
  obtain info where ex: "extract_element_info H ?s e1 = (Some info, insert (fingerprint H e1) ?s)"
    by blast
  note f = extract_Some [OF ex]
  have "info\<lparr>detection_method := m1\<rparr> \<in> set (fst (admit_each H ((m1, e1) # rest) ?s))"
    using assms(1) ex by (simp add: split_beta)
  then have "info\<lparr>detection_method := m1\<rparr> \<in> set (fst (admit_each H (pre @ (m1, e1) # rest) seen))"
    by (simp add: admit_each_append)
  moreover have "unique_id (info\<lparr>detection_method := m1\<rparr>) = Md5 (fingerprint H e1)"
    "detection_method (info\<lparr>detection_method := m1\<rparr>) = m1"
    "describes (info\<lparr>detection_method := m1\<rparr>) e1"
    using f by (simp_all add: describes_def)
  ultimately show ?thesis by blast
qed



section \<open>Discovery: repeated passes, first-seen wins, carousels\<close>

lemma find_clickable_elements_parts:
  "find_clickable_elements H p seen =
     (fst (admit_each H (sweep_order p) seen) @ find_carousel_elements H p,
      snd (admit_each H (sweep_order p) seen))"
  by (simp add: find_clickable_elements_def find_regular_clickables_admit_each split_beta)

text \<open>
  Claim C4. Two runs of \<open>find_clickable_elements\<close> on an unchanged page are to return
  descriptor sets of equal size. \<open>self.seen_elements\<close> lives on the tester and is never
  emptied, so a second run on the same tester starts from the set the first run left:
  every element of the regular sweeps is already in it, and the second run returns the
  carousel descriptors only (in the sequential file, nothing). On a page with one link
  the first run returns its descriptor and the second run returns the empty list.
\<close>

theorem second_discovery_pass_finds_nothing:
  "find_clickable_elements H p (snd (find_clickable_elements H p seen))
     = (find_carousel_elements H p, snd (find_clickable_elements H p seen))
   \<and> find_clickable_elements_seq H p (snd (find_clickable_elements_seq H p seen))
     = ([], snd (find_clickable_elements_seq H p seen))
   \<and> map href (fst (find_clickable_elements H one_link_page {})) = [''/about'']
   \<and> fst (find_clickable_elements H one_link_page (snd (find_clickable_elements H one_link_page {}))) = []
   \<and> map href (fst (find_clickable_elements_seq H one_link_page {})) = [''/about'']
   \<and> fst (find_clickable_elements_seq H one_link_page
            (snd (find_clickable_elements_seq H one_link_page {}))) = []"
proof -
  have a: "find_clickable_elements H p (snd (find_clickable_elements H p seen))
     = (find_carousel_elements H p, snd (find_clickable_elements H p seen))" for p seen
    by (simp add: find_clickable_elements_parts admit_each_again)
  have b: "find_clickable_elements_seq H p (snd (find_clickable_elements_seq H p seen))
     = ([], snd (find_clickable_elements_seq H p seen))" for p seen
    by (simp add: find_clickable_elements_seq_admit_each admit_each_again)
  have so: "sweep_order one_link_page = [(None, dom_link ''/about'' None)]"
    by (simp add: sweep_order_def one_link_page_def)
  have first: "map href (fst (admit_each H (sweep_order one_link_page) {})) = [''/about'']"
    by (simp add: so admissible_def dom_link_def extract_element_info_def Let_def or_empty_def)
  have nc: "find_carousel_elements H one_link_page = []"
    by (simp add: find_carousel_elements_def one_link_page_def)
  show ?thesis
    using a [of p seen] b [of p seen] a [of one_link_page "{}"] b [of one_link_page "{}"] first
    by (simp add: find_clickable_elements_parts find_clickable_elements_seq_admit_each nc)
qed












text \<open>In the sequential file the carousel path raises for every element, so its
  discovery returns the descriptors of the regular sweeps only.\<close>

lemma sequential_discovery_has_no_carousel_descriptors:
  "find_clickable_elements_seq H p seen = admit_each H (sweep_order p) seen"
  "\<forall>d \<in> set (fst (find_clickable_elements_seq H p seen)). \<not> is_carousel_element d"
  using admit_each_fresh [of _ H "sweep_order p" seen]
  by (auto simp: find_clickable_elements_seq_admit_each)

end
